theory Spec2Isabelle
  imports Main "HOL-Library.Word" "HOL-Library.Sublist"
begin

section \<open>Data model of \<^verbatim>\<open>map-template-contents.ts\<close>\<close>

text \<open>
  A JavaScript string is a sequence of UTF-16 code units; \<^verbatim>\<open>length\<close> counts code
  units and the regular expressions of the module (no \<^verbatim>\<open>u\<close> flag) work on code units.
\<close>

type_synonym jsstring = "16 word list"

text \<open>
  Numbers: every number the module computes from integer inputs is an integer, except
  that reading an array out of range gives \<^verbatim>\<open>undefined\<close> and \<^verbatim>\<open>undefined + n\<close> is
  \<^verbatim>\<open>NaN\<close>. Output offsets start at 0 and only grow by string lengths, so they are
  natural numbers; source offsets may be \<^verbatim>\<open>NaN\<close> or negative.
\<close>

datatype jsnum = NaN | Num int

fun jsadd :: "jsnum \<Rightarrow> jsnum \<Rightarrow> jsnum" where
  "jsadd (Num a) (Num b) = Num (a + b)"
| "jsadd _ _ = NaN"

fun jssub :: "jsnum \<Rightarrow> jsnum \<Rightarrow> jsnum" where
  "jssub (Num a) (Num b) = Num (a - b)"
| "jssub _ _ = NaN"

text \<open>\<^verbatim>\<open>a <= b\<close> on numbers: every comparison with \<^verbatim>\<open>NaN\<close> is false.\<close>

fun jsle :: "jsnum \<Rightarrow> jsnum \<Rightarrow> bool" where
  "jsle (Num a) (Num b) = (a \<le> b)"
| "jsle _ _ = False"

text \<open>
  Modelled from the spec: the type \<^verbatim>\<open>Range\<close> of \<^verbatim>\<open>./transformed-module\<close> is not among the
  sources. It is a pair of offsets \<^verbatim>\<open>{start, end}\<close>; the type of the offsets is a parameter
  here, natural numbers for output ranges and numbers for source ranges.
\<close>

record 'a Range =
  range_start :: 'a
  range_end :: 'a

text \<open>
  The part of a \<^verbatim>\<open>@glimmer/syntax\<close> node that the module reads: its type tag
  \<^verbatim>\<open>node.type\<close> (here \<open>ntype\<close>), its location \<^verbatim>\<open>node.loc\<close> with \<^verbatim>\<open>start\<close> and \<^verbatim>\<open>end\<close>
  (1-indexed lines) and, for a \<^verbatim>\<open>TextNode\<close>, its \<^verbatim>\<open>chars\<close>.
\<close>

record Position =
  line :: nat
  column :: nat

record SourceLocation =
  loc_start :: Position
  loc_end :: Position

record Node =
  ntype :: string
  loc :: SourceLocation
  chars :: jsstring

text \<open>The \<^verbatim>\<open>source\<close> of a mapping: \<^verbatim>\<open>AST.Node | Identifier\<close>.\<close>

datatype Origin = NodeOrigin Node | IdentifierOrigin jsstring

text \<open>
  Modelled from the spec: the class \<^verbatim>\<open>MappingTree\<close> of \<^verbatim>\<open>./mapping-tree\<close> is not among the
  sources. A node holds what its constructor is given,
  \<^verbatim>\<open>new MappingTree(tsRange, hbsRange, children, source)\<close>: the output range, the source
  range, the ordered children and the origin.
\<close>

datatype MappingTree =
  MappingTree (outputRange: "nat Range") (sourceRange: "jsnum Range")
    (children: "MappingTree list") (origin: Origin)

text \<open>
  The value that reading \<^verbatim>\<open>error.message\<close> yields: a string, or a value that is not a
  string (\<^verbatim>\<open>undefined\<close> for a thrown value without such a property).
\<close>

datatype Message = Str jsstring | NotStr

text \<open>
  The entries of \<^verbatim>\<open>errors\<close>, and \<^verbatim>\<open>RewriteResult\<close>, whose field \<^verbatim>\<open>errors\<close> is
  \<open>result_errors\<close> here; an absent \<^verbatim>\<open>result\<close> is \<open>None\<close>. The field \<^verbatim>\<open>message\<close> is
  declared a string and holds whatever \<^verbatim>\<open>error.message\<close> was.
\<close>

record ErrorEntry =
  message :: Message
  location :: "jsnum Range"

record Rewritten =
  code :: jsstring
  mapping :: MappingTree

record RewriteResult =
  result_errors :: "ErrorEntry list"
  result :: "Rewritten option"

text \<open>
  A thrown value, which may be any value of the language. The module does one thing with
  a value it catches: it reads \<^verbatim>\<open>error.message\<close>. For \<open>Readable m\<close> the read yields \<open>m\<close>
  (an \<^verbatim>\<open>Error\<close> object, or any other object, string or number). For \<open>Unreadable e\<close> the
  read itself throws \<open>e\<close>: \<^verbatim>\<open>null\<close> and \<^verbatim>\<open>undefined\<close>, for which it throws a
  \<^verbatim>\<open>TypeError\<close>, and an object whose \<^verbatim>\<open>message\<close> is a getter that throws. (A getter is
  taken to do nothing else: it does not call the emit API.)
\<close>

datatype Exn = Readable Message | Unreadable Exn

abbreviation Error :: "jsstring \<Rightarrow> Exn" where
  "Error m \<equiv> Readable (Str m)"

fun read_message :: "Exn \<Rightarrow> Exn + Message" where
  "read_message (Readable m) = Inr m"
| "read_message (Unreadable e) = Inl e"

text \<open>The code units of a string literal of ASCII characters.\<close>

definition js :: "string \<Rightarrow> jsstring" where
  "js s = map (\<lambda>c. of_nat (of_char c)) s"

text \<open>
  A \<^verbatim>\<open>TypeError\<close>, as \<^verbatim>\<open>undefined.push(...)\<close> and \<^verbatim>\<open>null.message\<close> throw it; the text of
  its message depends on the JavaScript engine. The first arises only on an empty stack,
  which \<open>exec_stack_nonempty\<close> below excludes for every run of \<^verbatim>\<open>mapTemplateContents\<close>.
  \<open>nullish\<close> is the thrown value \<^verbatim>\<open>null\<close> or \<^verbatim>\<open>undefined\<close>.
\<close>

definition typeError :: Exn where
  "typeError = Error (js ''Cannot read properties of undefined'')"

definition nullish :: Exn where
  "nullish = Unreadable typeError"

text \<open>The mutable variables that the closures of \<^verbatim>\<open>mapTemplateContents\<close> share.\<close>

record State =
  segmentsStack :: "jsstring list list"
  mappingsStack :: "MappingTree list list"
  indent :: jsstring
  offset :: nat
  needsIndent :: bool
  errors :: "ErrorEntry list"

type_synonym Completion = "Exn option \<times> State"

section \<open>The line-offset index\<close>

text \<open>\<^verbatim>\<open>template.split('\n')\<close>: never empty; the empty string gives one empty line.\<close>

fun split :: "'a \<Rightarrow> 'a list \<Rightarrow> 'a list list" where
  "split sep [] = [ []]"
| "split sep (c # cs) =
     (if c = sep then [] # split sep cs
      else (case split sep cs of [] \<Rightarrow> [ [c]] | l # ls \<Rightarrow> (c # l) # ls))"

text \<open>
  \<^verbatim>\<open>offsets[i] = v\<close> on a JavaScript array: an index past the end extends the array and
  leaves holes (\<open>None\<close>) between.
\<close>

definition array_set :: "'a option list \<Rightarrow> nat \<Rightarrow> 'a \<Rightarrow> 'a option list" where
  "array_set xs i v =
     (if i < length xs then xs[i := Some v]
      else xs @ replicate (i - length xs) None @ [Some v])"

text \<open>\<^verbatim>\<open>offsets[i]\<close> used as a number: \<^verbatim>\<open>undefined\<close> (out of range or a hole) adds to \<^verbatim>\<open>NaN\<close>.\<close>

definition array_get :: "nat option list \<Rightarrow> nat \<Rightarrow> jsnum" where
  "array_get xs i =
     (if i < length xs then (case xs ! i of Some v \<Rightarrow> Num (int v) | None \<Rightarrow> NaN) else NaN)"

text \<open>The loop \<^verbatim>\<open>for (let [index, line] of lines.entries())\<close> with its variables.\<close>

fun offsets_loop :: "nat \<Rightarrow> jsstring list \<Rightarrow> nat \<Rightarrow> nat option list \<Rightarrow> nat option list" where
  "offsets_loop index [] total' offsets = offsets"
| "offsets_loop index (ln # rest) total' offsets =
     offsets_loop (index + 1) rest (total' + (length ln + 1))
       (array_set offsets (index + 1) total')"

definition line_offsets :: "jsstring \<Rightarrow> nat option list" where
  "line_offsets template = offsets_loop 0 (split 0x0A template) 0 [Some 0]"

text \<open>
  The character class \<^verbatim>\<open>\s\<close> of ECMAScript: white space and line terminators.
\<close>

definition is_whitespace :: "16 word \<Rightarrow> bool" where
  "is_whitespace c =
     (c = 0x09 \<or> c = 0x0A \<or> c = 0x0B \<or> c = 0x0C \<or> c = 0x0D \<or> c = 0x20 \<or> c = 0xA0
      \<or> c = 0x1680 \<or> (0x2000 \<le> c \<and> c \<le> 0x200A) \<or> c = 0x2028 \<or> c = 0x2029
      \<or> c = 0x202F \<or> c = 0x205F \<or> c = 0x3000 \<or> c = 0xFEFF)"

text \<open>
  \<^verbatim>\<open>/^\s+/.exec(s)\<close> and \<^verbatim>\<open>/\s+$/.exec(s)\<close>: the matched text, or \<open>None\<close> for \<^verbatim>\<open>null\<close>
  when not even one character matches. The leftmost match of \<^verbatim>\<open>\s+$\<close> is the longest
  run of white space that ends the string.
\<close>

definition LEADING_WHITESPACE :: "jsstring \<Rightarrow> jsstring option" where
  "LEADING_WHITESPACE s =
     (let m = takeWhile is_whitespace s in if m = [] then None else Some m)"

definition TRAILING_WHITESPACE :: "jsstring \<Rightarrow> jsstring option" where
  "TRAILING_WHITESPACE s =
     (let m = rev (takeWhile is_whitespace (rev s)) in if m = [] then None else Some m)"

text \<open>The closure that \<^verbatim>\<open>calculateLineOffsets(template)\<close> returns, applied to a node.\<close>

definition calculateLineOffsets :: "jsstring \<Rightarrow> Node \<Rightarrow> jsnum Range" where
  "calculateLineOffsets template node =
     (let offsets = line_offsets template;
          start = jsadd (array_get offsets (line (loc_start (loc node))))
                        (Num (int (column (loc_start (loc node)))));
          end' = jsadd (array_get offsets (line (loc_end (loc node))))
                       (Num (int (column (loc_end (loc node)))))
      in if ntype node = ''TextNode'' then
           (let leading = (case LEADING_WHITESPACE (chars node) of
                             Some m \<Rightarrow> length m | None \<Rightarrow> 0);
                trailing = (case TRAILING_WHITESPACE (chars node) of
                              Some m \<Rightarrow> length m | None \<Rightarrow> 0)
            in if leading \<noteq> length (chars node)
               then \<lparr>range_start = jsadd start (Num (int leading)),
                     range_end = jssub end' (Num (int trailing))\<rparr>
               else \<lparr>range_start = start, range_end = end'\<rparr>)
         else \<lparr>range_start = start, range_end = end'\<rparr>)"

section \<open>The emission buffer\<close>

text \<open>\<^verbatim>\<open>stack[0].push(...xs)\<close>: \<open>None\<close> when \<^verbatim>\<open>stack[0]\<close> is \<^verbatim>\<open>undefined\<close>.\<close>

definition top_push :: "'a list \<Rightarrow> 'a list list \<Rightarrow> 'a list list option" where
  "top_push xs stack = (case stack of [] \<Rightarrow> None | t # rest \<Rightarrow> Some ((t @ xs) # rest))"

definition emit_indent :: "State \<Rightarrow> Completion" where
  "emit_indent s = (None, s\<lparr>indent := indent s @ [0x20, 0x20]\<rparr>)"

definition emit_dedent :: "State \<Rightarrow> Completion" where
  "emit_dedent s = (None, s\<lparr>indent := drop 2 (indent s)\<rparr>)"

definition emit_newline :: "State \<Rightarrow> Completion" where
  "emit_newline s =
     (let s1 = s\<lparr>offset := offset s + 1\<rparr>
      in case top_push [ [0x0A]] (segmentsStack s1) of
           None \<Rightarrow> (Some typeError, s1)
         | Some st \<Rightarrow> (None, s1\<lparr>segmentsStack := st, needsIndent := True\<rparr>))"

definition emit_text :: "jsstring \<Rightarrow> State \<Rightarrow> Completion" where
  "emit_text v s =
     (case (if needsIndent s then
              (let s1 = s\<lparr>offset := offset s + length (indent s)\<rparr>
               in case top_push [indent s1] (segmentsStack s1) of
                    None \<Rightarrow> (Some typeError, s1)
                  | Some st \<Rightarrow> (None, s1\<lparr>segmentsStack := st, needsIndent := False\<rparr>))
            else (None, s)) of
        (Some e, s2) \<Rightarrow> (Some e, s2)
      | (None, s2) \<Rightarrow>
          (let s3 = s2\<lparr>offset := offset s2 + length v\<rparr>
           in case top_push [v] (segmentsStack s3) of
                None \<Rightarrow> (Some typeError, s3)
              | Some st \<Rightarrow> (None, s3\<lparr>segmentsStack := st\<rparr>)))"

text \<open>
  The local variables \<^verbatim>\<open>segments\<close> and \<^verbatim>\<open>mappings\<close> of \<^verbatim>\<open>captureMapping\<close> name the arrays
  that the call unshifts onto the stacks. Arrays enter and leave a stack at its head only,
  and only the array at the head is ever written (\<^verbatim>\<open>stack[0].push\<close>), so an array is known
  by its height above the bottom of the stack: the array unshifted onto a stack of depth
  \<open>depth\<close> is, for as long as it is on the stack, the one at that height (\<open>exec_ok\<close> below:
  a callback leaves everything that was on the stacks in place).
\<close>

definition local_array :: "nat \<Rightarrow> 'a list list \<Rightarrow> 'a list" where
  "local_array depth stack =
     (if depth < length stack then stack ! (length stack - Suc depth) else [])"

text \<open>
  \<^verbatim>\<open>captureMapping(hbsRange, source, callback)\<close>. The catch block evaluates
  \<^verbatim>\<open>error.message\<close> before it pushes the entry; when that read throws, the exception leaves
  \<^verbatim>\<open>captureMapping\<close> from inside the catch block: no entry is pushed, the offset is not
  reset and neither stack is shifted. \<^verbatim>\<open>shift()\<close> removes the head of a stack, whichever
  array that is, and leaves an empty stack empty, as \<open>tl\<close> does.

  The new node is given the array \<^verbatim>\<open>mappings\<close> itself; here it holds the elements that the
  array has when the node is built. The two agree when the array is written no more, and
  it is not once it has left the stack, which it has at this point unless a call inside
  the callback has left its own arrays on the stacks. They stay on the stacks from then
  on (\<open>exec_ok\<close> below: a call removes nothing that it found there), so such a run does
  not end with the stacks at depth 1, and no tree is returned from it.
\<close>

definition captureMapping ::
  "jsnum Range \<Rightarrow> Origin \<Rightarrow> (State \<Rightarrow> Completion) \<Rightarrow> State \<Rightarrow> Completion" where
  "captureMapping hbsRange source callback s =
     (let start = offset s;
          s1 = s\<lparr>segmentsStack := [] # segmentsStack s,
                 mappingsStack := [] # mappingsStack s\<rparr>
      in case (case callback s1 of
                 (None, s') \<Rightarrow> (None, s')
               | (Some error, s') \<Rightarrow>
                   (case read_message error of
                      Inl raised \<Rightarrow> (Some raised, s')
                    | Inr m \<Rightarrow>
                        (None, s'\<lparr>errors := errors s' @ [\<lparr>message = m, location = hbsRange\<rparr>],
                                  offset := start\<rparr>))) of
           (Some raised, s2) \<Rightarrow> (Some raised, s2)
         | (None, s2) \<Rightarrow>
             (let mappings = local_array (length (mappingsStack s)) (mappingsStack s2);
                  segments = local_array (length (segmentsStack s)) (segmentsStack s2);
                  s3 = s2\<lparr>mappingsStack := tl (mappingsStack s2),
                          segmentsStack := tl (segmentsStack s2)\<rparr>
              in if start \<noteq> offset s3 then
                   (let end' = offset s3;
                        tsRange = \<lparr>range_start = start, range_end = end'\<rparr>
                    in case top_push [MappingTree tsRange hbsRange mappings source]
                              (mappingsStack s3) of
                         None \<Rightarrow> (Some typeError, s3)
                       | Some ms \<Rightarrow>
                           (let s4 = s3\<lparr>mappingsStack := ms\<rparr>
                            in case top_push segments (segmentsStack s4) of
                                 None \<Rightarrow> (Some typeError, s4)
                               | Some st \<Rightarrow> (None, s4\<lparr>segmentsStack := st\<rparr>)))
                 else (None, s3)))"

definition emit_identifier :: "jsstring \<Rightarrow> int \<Rightarrow> int option \<Rightarrow> State \<Rightarrow> Completion" where
  "emit_identifier v hbsOffset hbsLength s =
     (let len = (case hbsLength of None \<Rightarrow> int (length v) | Some l \<Rightarrow> l);
          hbsRange = \<lparr>range_start = Num hbsOffset, range_end = Num (hbsOffset + len)\<rparr>;
          source = IdentifierOrigin v
      in captureMapping hbsRange source (emit_text v) s)"

definition emit_forNode ::
  "(Node \<Rightarrow> jsnum Range) \<Rightarrow> Node \<Rightarrow> (State \<Rightarrow> Completion) \<Rightarrow> State \<Rightarrow> Completion" where
  "emit_forNode rangeForNode node callback s =
     captureMapping (rangeForNode node) (NodeOrigin node) callback s"

section \<open>Drivers\<close>

text \<open>
  The driver is an arbitrary callback. All it can do to the rewrite is call the members
  of \<^verbatim>\<open>emit\<close>, throw any value, and catch what it or a call of \<^verbatim>\<open>forNode\<close> throws. A run
  of a driver that returns or throws is therefore a finite tree: one constructor per
  member of \<^verbatim>\<open>emit\<close>, the callback of \<^verbatim>\<open>forNode\<close> being what the driver does inside it;
  \<open>Throw\<close> for a \<^verbatim>\<open>throw\<close>; and \<open>TryCatch body handler\<close> for a \<^verbatim>\<open>try\<close> statement of the
  driver, with what the driver does in the block and what it does after catching.
\<close>

datatype Cmd =
    Indent
  | Dedent
  | Newline
  | Text jsstring
  | Identifier jsstring int "int option"
  | ForNode Node "Cmd list"
  | Throw Exn
  | TryCatch "Cmd list" "Cmd list"

fun exec :: "(Node \<Rightarrow> jsnum Range) \<Rightarrow> Cmd \<Rightarrow> State \<Rightarrow> Completion"
  and exec_list :: "(Node \<Rightarrow> jsnum Range) \<Rightarrow> Cmd list \<Rightarrow> State \<Rightarrow> Completion" where
  "exec rf Indent s = emit_indent s"
| "exec rf Dedent s = emit_dedent s"
| "exec rf Newline s = emit_newline s"
| "exec rf (Text v) s = emit_text v s"
| "exec rf (Identifier v hbsOffset hbsLength) s = emit_identifier v hbsOffset hbsLength s"
| "exec rf (ForNode node cb) s = emit_forNode rf node (\<lambda>s'. exec_list rf cb s') s"
| "exec rf (Throw e) s = (Some e, s)"
| "exec rf (TryCatch body handler) s =
     (case exec_list rf body s of
        (None, s') \<Rightarrow> (None, s')
      | (Some e, s') \<Rightarrow> exec_list rf handler s')"
| "exec_list rf [] s = (None, s)"
| "exec_list rf (c # cs) s =
     (case exec rf c s of
        (None, s') \<Rightarrow> exec_list rf cs s'
      | (Some e, s') \<Rightarrow> (Some e, s'))"

section \<open>The rewrite\<close>

text \<open>
  How a call of \<^verbatim>\<open>mapTemplateContents\<close> ends: it returns a \<^verbatim>\<open>RewriteResult\<close>, or an
  exception leaves it, or its assertion fails. Modelled from the spec: \<^verbatim>\<open>assert\<close> of
  \<^verbatim>\<open>./util\<close> is not among the sources; a failed assertion is a violation of the caller's
  contract that ends the rewrite without a result.
\<close>

datatype Outcome = Returned RewriteResult | Threw Exn | AssertionFailed

definition initial :: State where
  "initial = \<lparr>segmentsStack = [ []], mappingsStack = [ []], indent = [], offset = 0,
              needsIndent = False, errors = []\<rparr>"

text \<open>
  \<^verbatim>\<open>mapTemplateContents(template, callback)\<close>, with the external parser \<^verbatim>\<open>preprocess\<close> as
  a parameter: \<open>Inl\<close> is the value it throws, \<open>Inr\<close> the template node it returns. The
  catch block reads \<^verbatim>\<open>error.message\<close>, which may throw. The callback receives the node and
  \<^verbatim>\<open>rangeForNode\<close> and makes its calls. With a segment stack of length 1 and no mapping
  stack entry, \<^verbatim>\<open>mappingsStack[0]\<close> would be \<^verbatim>\<open>undefined\<close>; the two stacks always have
  one length (\<open>exec_ok\<close>).
\<close>

definition mapTemplateContents ::
  "(jsstring \<Rightarrow> Exn + Node) \<Rightarrow> jsstring \<Rightarrow> (Node \<Rightarrow> (Node \<Rightarrow> jsnum Range) \<Rightarrow> Cmd list)
     \<Rightarrow> Outcome" where
  "mapTemplateContents preprocess template callback =
     (case preprocess template of
        Inl error \<Rightarrow>
          (case read_message error of
             Inl raised \<Rightarrow> Threw raised
           | Inr m \<Rightarrow>
               Returned \<lparr>result_errors =
                           [\<lparr>message = m,
                             location = \<lparr>range_start = Num 0,
                                         range_end = Num (int (length template))\<rparr>\<rparr>],
                         result = None\<rparr>)
      | Inr ast \<Rightarrow>
          (let rangeForNode = calculateLineOffsets template
           in case exec_list rangeForNode (callback ast rangeForNode) initial of
                (Some e, s) \<Rightarrow> Threw e
              | (None, s) \<Rightarrow>
                  if length (segmentsStack s) = 1 then
                    (case mappingsStack s of
                       [] \<Rightarrow> Threw typeError
                     | ms # _ \<Rightarrow>
                         (let code' = concat (hd (segmentsStack s));
                              mapping' = MappingTree
                                \<lparr>range_start = 0, range_end = length code'\<rparr>
                                (rangeForNode ast) ms (NodeOrigin ast)
                          in Returned \<lparr>result_errors = errors s,
                                       result = Some \<lparr>code = code', mapping = mapping'\<rparr>\<rparr>))
                  else AssertionFailed))"

section \<open>Predicates used to state the properties\<close>

text \<open>The state in which the callback of \<^verbatim>\<open>captureMapping\<close> starts: both stacks unshifted.\<close>

definition enter_scope :: "State \<Rightarrow> State" where
  "enter_scope s = s\<lparr>segmentsStack := [] # segmentsStack s, mappingsStack := [] # mappingsStack s\<rparr>"

text \<open>
  \<open>chain lo ms hi\<close>: the output ranges of \<open>ms\<close> are non-empty, lie in order between \<open>lo\<close>
  and \<open>hi\<close> and do not overlap; \<open>output_wf\<close>: this holds for the children of every node,
  within the node's own output range.
\<close>

fun chain :: "nat \<Rightarrow> MappingTree list \<Rightarrow> nat \<Rightarrow> bool" where
  "chain lo [] hi = (lo \<le> hi)"
| "chain lo (m # ms) hi =
     (lo \<le> range_start (outputRange m) \<and> range_start (outputRange m) < range_end (outputRange m)
      \<and> chain (range_end (outputRange m)) ms hi)"

fun output_wf :: "MappingTree \<Rightarrow> bool" where
  "output_wf (MappingTree out src cs org) =
     (chain (range_start out) cs (range_end out) \<and> list_all output_wf cs)"

definition nonempty :: "State \<Rightarrow> bool" where
  "nonempty s = (segmentsStack s \<noteq> [] \<and> mappingsStack s \<noteq> [])"

text \<open>
  What a call of the driver leaves behind. Everything that was on the stacks stays in
  place, and only the arrays at their heads are appended to; above them lie the arrays of
  the scopes that a failing catch block has left unshifted, the same number on both
  stacks. When there are none, the offset has grown by the length of the appended
  segments, and the appended mappings are well-formed and lie between the old and the new
  offset.
\<close>

definition step_ok :: "State \<Rightarrow> Completion \<Rightarrow> bool" where
  "step_ok s c = (\<exists>extraS extraM segs maps.
      segmentsStack (snd c) = extraS @ (hd (segmentsStack s) @ segs) # tl (segmentsStack s) \<and>
      mappingsStack (snd c) = extraM @ (hd (mappingsStack s) @ maps) # tl (mappingsStack s) \<and>
      length extraS = length extraM \<and>
      (extraS = [] \<longrightarrow>
         offset (snd c) = offset s + length (concat segs) \<and>
         chain (offset s) maps (offset (snd c)) \<and> list_all output_wf maps))"

text \<open>\<^verbatim>\<open>stack[0].push(...xs)\<close> on a stack that is not empty.\<close>

definition push_top :: "'a list \<Rightarrow> 'a list list \<Rightarrow> 'a list list" where
  "push_top xs stack = (hd stack @ xs) # tl stack"

text \<open>
  How \<^verbatim>\<open>captureMapping\<close> completes, from the state \<open>s\<close> before the call and the completion
  of the callback: the catch block whose read of the message throws, the catch block that
  records the error, the path of an unchanged offset and the path that commits a node.
\<close>

definition scope_exit :: "jsnum Range \<Rightarrow> Origin \<Rightarrow> State \<Rightarrow> Completion \<Rightarrow> Completion" where
  "scope_exit hbsRange source s c =
     (case c of
        (Some e, s2) \<Rightarrow>
          (case read_message e of
             Inl raised \<Rightarrow> (Some raised, s2)
           | Inr m \<Rightarrow>
               (None, s2\<lparr>errors := errors s2 @ [\<lparr>message = m, location = hbsRange\<rparr>],
                         offset := offset s,
                         mappingsStack := tl (mappingsStack s2),
                         segmentsStack := tl (segmentsStack s2)\<rparr>))
      | (None, s2) \<Rightarrow>
          (None,
           if offset s2 = offset s
           then s2\<lparr>mappingsStack := tl (mappingsStack s2),
                   segmentsStack := tl (segmentsStack s2)\<rparr>
           else s2\<lparr>mappingsStack :=
                     push_top
                       [MappingTree \<lparr>range_start = offset s, range_end = offset s2\<rparr> hbsRange
                          (local_array (length (mappingsStack s)) (mappingsStack s2)) source]
                       (tl (mappingsStack s2)),
                   segmentsStack :=
                     push_top (local_array (length (segmentsStack s)) (segmentsStack s2))
                       (tl (segmentsStack s2))\<rparr>))"

text \<open>
  Every value that the command throws, at any depth, has a message that can be read.
\<close>

fun readable :: "Cmd \<Rightarrow> bool" where
  "readable (Throw e) = (case e of Readable m \<Rightarrow> True | Unreadable e' \<Rightarrow> False)"
| "readable (ForNode node cb) = list_all readable cb"
| "readable (TryCatch body handler) = (list_all readable body \<and> list_all readable handler)"
| "readable c = True"

text \<open>
  The exception with which a sequence of calls ends when \<^verbatim>\<open>forNode\<close> calls do not throw:
  the first \<^verbatim>\<open>throw\<close> outside every \<^verbatim>\<open>forNode\<close> callback that no \<^verbatim>\<open>try\<close> statement of the
  driver catches, if there is one.
\<close>

fun thrown :: "Cmd list \<Rightarrow> Exn option" where
  "thrown [] = None"
| "thrown (Throw e # cs) = Some e"
| "thrown (TryCatch body handler # cs) =
     (case thrown body of
        None \<Rightarrow> thrown cs
      | Some e \<Rightarrow> (case thrown handler of None \<Rightarrow> thrown cs | Some e' \<Rightarrow> Some e'))"
| "thrown (c # cs) = thrown cs"

text \<open>Inputs of the examples: the template \<^verbatim>\<open>abc\<close> and its template node.\<close>

definition abc :: jsstring where
  "abc = [0x61, 0x62, 0x63]"

definition ast_abc :: Node where
  "ast_abc = \<lparr>ntype = ''Template'',
              loc = \<lparr>loc_start = \<lparr>line = 1, column = 0\<rparr>,
                     loc_end = \<lparr>line = 1, column = 3\<rparr>\<rparr>,
              chars = []\<rparr>"

definition parse_abc :: "jsstring \<Rightarrow> Exn + Node" where
  "parse_abc template = Inr ast_abc"

text \<open>
  No \<^verbatim>\<open>forNode\<close> call nested in the command has a callback that throws.
\<close>

fun no_failing_scope :: "Cmd \<Rightarrow> bool" where
  "no_failing_scope (ForNode node cb) = (thrown cb = None \<and> list_all no_failing_scope cb)"
| "no_failing_scope (TryCatch body handler) =
     (list_all no_failing_scope body \<and> list_all no_failing_scope handler)"
| "no_failing_scope c = True"

text \<open>A callback that emits and throws after a nested scope has failed.\<close>

definition msg1 :: jsstring where "msg1 = [0x65, 0x31]"
definition msg2 :: jsstring where "msg2 = [0x65, 0x32]"

definition nested_failure :: "Cmd list" where
  "nested_failure = [ForNode ast_abc [Text [0x61], Throw (Error msg2)], Text [0x62], Throw (Error msg1)]"

text \<open>Drivers and parsers of the examples.\<close>

definition throwing_driver :: "Node \<Rightarrow> (Node \<Rightarrow> jsnum Range) \<Rightarrow> Cmd list" where
  "throwing_driver ast rangeForNode = [Throw (Error msg1)]"

definition late_throwing_driver :: "Node \<Rightarrow> (Node \<Rightarrow> jsnum Range) \<Rightarrow> Cmd list" where
  "late_throwing_driver ast rangeForNode = [ForNode ast [Text abc], Throw (Error msg1)]"

definition whole_driver :: "Node \<Rightarrow> (Node \<Rightarrow> jsnum Range) \<Rightarrow> Cmd list" where
  "whole_driver ast rangeForNode = [ForNode ast [Text abc]]"

definition if_block :: jsstring where
  "if_block = [0x7B, 0x7B, 0x23, 0x69, 0x66, 0x7D, 0x7D]"

definition parse_unclosed :: "jsstring \<Rightarrow> Exn + Node" where
  "parse_unclosed template = Inl (Error (js ''unclosed block''))"

definition pending_indent_driver :: "Node \<Rightarrow> (Node \<Rightarrow> jsnum Range) \<Rightarrow> Cmd list" where
  "pending_indent_driver ast rangeForNode =
     [Indent, ForNode ast [Newline, Throw (Error msg1)], Text [0x78]]"

text \<open>The command calls \<^verbatim>\<open>newline()\<close>, itself or inside a callback.\<close>

fun has_newline :: "Cmd \<Rightarrow> bool" where
  "has_newline Newline = True"
| "has_newline (ForNode node cb) = list_ex has_newline cb"
| "has_newline (TryCatch body handler) =
     (list_ex has_newline body \<or> list_ex has_newline handler)"
| "has_newline c = False"

text \<open>The state without its indentation prefix, to compare two runs.\<close>

definition except_indent :: "State \<Rightarrow> State" where
  "except_indent s = s\<lparr>indent := []\<rparr>"

definition indent_after_newline_driver :: "Node \<Rightarrow> (Node \<Rightarrow> jsnum Range) \<Rightarrow> Cmd list" where
  "indent_after_newline_driver ast rangeForNode = [Newline, Indent, Text [0x61]]"

definition newline_driver :: "Node \<Rightarrow> (Node \<Rightarrow> jsnum Range) \<Rightarrow> Cmd list" where
  "newline_driver ast rangeForNode = [Newline, Text [0x61]]"

text \<open>
  Containment of ranges, the order of siblings (each ends before the next starts, so they
  do not overlap and are ordered by their start), and the two containment properties of a
  tree: on output ranges alone, and on output and source ranges together.
\<close>

definition within :: "nat Range \<Rightarrow> nat Range \<Rightarrow> bool" where
  "within c p = (range_start p \<le> range_start c \<and> range_end c \<le> range_end p)"

definition within_source :: "jsnum Range \<Rightarrow> jsnum Range \<Rightarrow> bool" where
  "within_source c p = (jsle (range_start p) (range_start c) \<and> jsle (range_end c) (range_end p))"

definition before :: "MappingTree \<Rightarrow> MappingTree \<Rightarrow> bool" where
  "before a b = (range_start (outputRange a) \<le> range_start (outputRange b)
                 \<and> range_end (outputRange a) \<le> range_start (outputRange b))"

fun output_contained :: "MappingTree \<Rightarrow> bool" where
  "output_contained (MappingTree out src cs org) =
     (list_all (\<lambda>c. within (outputRange c) out) cs
      \<and> sorted_wrt before cs
      \<and> list_all output_contained cs)"

fun fully_contained :: "MappingTree \<Rightarrow> bool" where
  "fully_contained (MappingTree out src cs org) =
     (list_all (\<lambda>c. within (outputRange c) out \<and> within_source (sourceRange c) src) cs
      \<and> sorted_wrt before cs
      \<and> list_all fully_contained cs)"

text \<open>Two drivers with scopes inside a scope, and the trees they produce.\<close>

definition stray_identifier_driver :: "Node \<Rightarrow> (Node \<Rightarrow> jsnum Range) \<Rightarrow> Cmd list" where
  "stray_identifier_driver ast rangeForNode = [ForNode ast [Identifier [0x78] 100 None]]"

definition nested_driver :: "Node \<Rightarrow> (Node \<Rightarrow> jsnum Range) \<Rightarrow> Cmd list" where
  "nested_driver ast rangeForNode =
     [Text [0x78], ForNode ast [Identifier [0x61] 0 None, Text [0x62], Identifier [0x63] 2 None]]"

definition nested_tree :: MappingTree where
  "nested_tree =
     MappingTree \<lparr>range_start = 0, range_end = 4\<rparr> \<lparr>range_start = Num 0, range_end = Num 3\<rparr>
       [MappingTree \<lparr>range_start = 1, range_end = 4\<rparr> \<lparr>range_start = Num 0, range_end = Num 3\<rparr>
          [MappingTree \<lparr>range_start = 1, range_end = 2\<rparr>
             \<lparr>range_start = Num 0, range_end = Num 1\<rparr> [] (IdentifierOrigin [0x61]),
           MappingTree \<lparr>range_start = 3, range_end = 4\<rparr>
             \<lparr>range_start = Num 2, range_end = Num 3\<rparr> [] (IdentifierOrigin [0x63])]
          (NodeOrigin ast_abc)]
       (NodeOrigin ast_abc)"

definition stray_tree :: MappingTree where
  "stray_tree =
     MappingTree \<lparr>range_start = 0, range_end = 1\<rparr> \<lparr>range_start = Num 0, range_end = Num 3\<rparr>
       [MappingTree \<lparr>range_start = 0, range_end = 1\<rparr> \<lparr>range_start = Num 0, range_end = Num 3\<rparr>
          [MappingTree \<lparr>range_start = 0, range_end = 1\<rparr>
             \<lparr>range_start = Num 100, range_end = Num 101\<rparr> [] (IdentifierOrigin [0x78])]
          (NodeOrigin ast_abc)]
       (NodeOrigin ast_abc)"

text \<open>
  \<^verbatim>\<open>text.substring(a, b)\<close> for indices that are natural numbers, and the concatenation of
  the substrings of a text that the output ranges of a list of mapping nodes cover.
\<close>

definition substring :: "jsstring \<Rightarrow> nat \<Rightarrow> nat \<Rightarrow> jsstring" where
  "substring s a b = take (max a b - min a b) (drop (min a b) s)"

definition covered :: "jsstring \<Rightarrow> MappingTree list \<Rightarrow> jsstring" where
  "covered text ms =
     concat (map (\<lambda>m. substring text (range_start (outputRange m)) (range_end (outputRange m))) ms)"

text \<open>
  A command of the driver that emits text only inside a scope: every call but \<^verbatim>\<open>text\<close> and
  \<^verbatim>\<open>newline\<close>, and a \<^verbatim>\<open>try\<close> statement of such commands. Then mapping nodes whose output
  ranges follow one another without a gap from \<open>lo\<close> to \<open>hi\<close>.
\<close>

fun scoped :: "Cmd \<Rightarrow> bool" where
  "scoped (Text v) = False"
| "scoped Newline = False"
| "scoped (TryCatch body handler) = (list_all scoped body \<and> list_all scoped handler)"
| "scoped c = True"

fun tiles :: "nat \<Rightarrow> MappingTree list \<Rightarrow> nat \<Rightarrow> bool" where
  "tiles lo [] hi = (lo = hi)"
| "tiles lo (m # ms) hi =
     (range_start (outputRange m) = lo \<and> lo \<le> range_end (outputRange m)
      \<and> tiles (range_end (outputRange m)) ms hi)"

text \<open>A driver that emits outside every scope, and one that emits only inside scopes.\<close>

definition raw_text_driver :: "Node \<Rightarrow> (Node \<Rightarrow> jsnum Range) \<Rightarrow> Cmd list" where
  "raw_text_driver ast rangeForNode = [Text abc]"

definition two_scopes_driver :: "Node \<Rightarrow> (Node \<Rightarrow> jsnum Range) \<Rightarrow> Cmd list" where
  "two_scopes_driver ast rangeForNode =
     [Identifier [0x61] 0 None, ForNode ast [Text [0x62], Newline]]"

text \<open>
  The range of a node as the specification describes it. \<open>prefix_sum lines l\<close> is the sum
  of the lengths, each with its line terminator, of the lines before the 1-indexed line
  \<open>l\<close>; \<open>line_start\<close> is that sum for line 0 and for the lines of the template, and
  \<^verbatim>\<open>NaN\<close> past them. \<open>rangeForNode_spec\<close> adds the columns and, exactly for a
  \<^verbatim>\<open>TextNode\<close> whose text is not entirely white space, moves the start past the leading
  white space and the end before the trailing white space.
\<close>

definition prefix_sum :: "jsstring list \<Rightarrow> nat \<Rightarrow> nat" where
  "prefix_sum lines l = sum_list (map (\<lambda>ln. length ln + 1) (take (l - 1) lines))"

definition line_start :: "jsstring \<Rightarrow> nat \<Rightarrow> jsnum" where
  "line_start template l =
     (if l \<le> length (split 0x0A template)
      then Num (int (prefix_sum (split 0x0A template) l)) else NaN)"

definition rangeForNode_spec :: "jsstring \<Rightarrow> Node \<Rightarrow> jsnum Range" where
  "rangeForNode_spec template node =
     (let start = jsadd (line_start template (line (loc_start (loc node))))
                        (Num (int (column (loc_start (loc node)))));
          end' = jsadd (line_start template (line (loc_end (loc node))))
                       (Num (int (column (loc_end (loc node)))))
      in if ntype node = ''TextNode'' \<and> \<not> list_all is_whitespace (chars node)
         then \<lparr>range_start =
                 jsadd start (Num (int (length (takeWhile is_whitespace (chars node))))),
               range_end =
                 jssub end' (Num (int (length (takeWhile is_whitespace (rev (chars node))))))\<rparr>
         else \<lparr>range_start = start, range_end = end'\<rparr>)"

text \<open>A template of three lines and text nodes on it.\<close>

definition three_lines :: jsstring where
  "three_lines = [0x61, 0x0A, 0x20, 0x20, 0x62, 0x20, 0x0A, 0x63]"

definition text_node :: "nat \<Rightarrow> nat \<Rightarrow> nat \<Rightarrow> nat \<Rightarrow> jsstring \<Rightarrow> Node" where
  "text_node l1 c1 l2 c2 cs =
     \<lparr>ntype = ''TextNode'',
      loc = \<lparr>loc_start = \<lparr>line = l1, column = c1\<rparr>, loc_end = \<lparr>line = l2, column = c2\<rparr>\<rparr>,
      chars = cs\<rparr>"

text \<open>
  A driver that throws \<^verbatim>\<open>null\<close> inside a scope inside a scope:
  \<^verbatim>\<open>forNode(ast, () => forNode(ast, () => { throw null }))\<close>.
\<close>

definition leaking_driver :: "Node \<Rightarrow> (Node \<Rightarrow> jsnum Range) \<Rightarrow> Cmd list" where
  "leaking_driver ast rangeForNode = [ForNode ast [ForNode ast [Throw nullish]]]"

section \<open>Invariants of a run\<close>

lemma chain_le: "chain lo ms hi \<Longrightarrow> lo \<le> hi"
proof (induction ms arbitrary: lo)
  case Nil
  then show ?case by simp
next
  case (Cons m ms)
  from Cons.prems have "chain (range_end (outputRange m)) ms hi" by simp
  then have "range_end (outputRange m) \<le> hi" by (rule Cons.IH)
  with Cons.prems show ?case by simp
qed

lemma chain_append: "chain lo ms mid \<Longrightarrow> chain mid ns hi \<Longrightarrow> chain lo (ms @ ns) hi"
proof (induction ms arbitrary: lo)
  case Nil
  then show ?case by (cases ns) auto
next
  case (Cons m ms)
  then show ?case by auto
qed

lemma local_array_at: "local_array (length lower) (upper @ x # lower) = x"
  by (simp add: local_array_def nth_append)

lemma push_top_append: "upper \<noteq> [] \<Longrightarrow> push_top xs (upper @ lower) = push_top xs upper @ lower"
  by (cases upper) (simp_all add: push_top_def)

lemma push_top_length: "length (push_top xs stack) = Suc (length (tl stack))"
  by (simp add: push_top_def)

lemma step_ok_I:
  assumes "segmentsStack (snd c) = extraS @ (hd (segmentsStack s) @ segs) # tl (segmentsStack s)"
    and "mappingsStack (snd c) = extraM @ (hd (mappingsStack s) @ maps) # tl (mappingsStack s)"
    and "length extraS = length extraM"
    and "extraS = [] \<Longrightarrow> offset (snd c) = offset s + length (concat segs)"
    and "extraS = [] \<Longrightarrow> chain (offset s) maps (offset (snd c))"
    and "extraS = [] \<Longrightarrow> list_all output_wf maps"
  shows "step_ok s c"
  unfolding step_ok_def using assms by blast

lemma step_ok_E:
  assumes "step_ok s c"
  obtains extraS extraM segs maps where
    "segmentsStack (snd c) = extraS @ (hd (segmentsStack s) @ segs) # tl (segmentsStack s)"
    "mappingsStack (snd c) = extraM @ (hd (mappingsStack s) @ maps) # tl (mappingsStack s)"
    "length extraS = length extraM"
    "extraS = [] \<Longrightarrow> offset (snd c) = offset s + length (concat segs)"
    "extraS = [] \<Longrightarrow> chain (offset s) maps (offset (snd c))"
    "extraS = [] \<Longrightarrow> list_all output_wf maps"
  using assms unfolding step_ok_def by blast

lemma step_ok_refl: "nonempty s \<Longrightarrow> step_ok s (r, s)"
  by (rule step_ok_I[where extraS = "[]" and extraM = "[]" and segs = "[]" and maps = "[]"])
     (simp_all add: nonempty_def)

lemma step_ok_nonempty: "step_ok s c \<Longrightarrow> nonempty (snd c)"
  unfolding step_ok_def nonempty_def by auto

lemma step_ok_trans:
  assumes "step_ok s (r, s1)" "step_ok s1 c"
  shows "step_ok s c"
proof -
  from assms(1) obtain e1 f1 g1 m1 where a:
    "segmentsStack s1 = e1 @ (hd (segmentsStack s) @ g1) # tl (segmentsStack s)"
    "mappingsStack s1 = f1 @ (hd (mappingsStack s) @ m1) # tl (mappingsStack s)"
    "length e1 = length f1"
    "e1 = [] \<Longrightarrow> offset s1 = offset s + length (concat g1)"
    "e1 = [] \<Longrightarrow> chain (offset s) m1 (offset s1)"
    "e1 = [] \<Longrightarrow> list_all output_wf m1"
    by (auto elim: step_ok_E)
  from assms(2) obtain e2 f2 g2 m2 where b:
    "segmentsStack (snd c) = e2 @ (hd (segmentsStack s1) @ g2) # tl (segmentsStack s1)"
    "mappingsStack (snd c) = f2 @ (hd (mappingsStack s1) @ m2) # tl (mappingsStack s1)"
    "length e2 = length f2"
    "e2 = [] \<Longrightarrow> offset (snd c) = offset s1 + length (concat g2)"
    "e2 = [] \<Longrightarrow> chain (offset s1) m2 (offset (snd c))"
    "e2 = [] \<Longrightarrow> list_all output_wf m2"
    by (auto elim: step_ok_E)
  show ?thesis
  proof (cases e1)
    case Nil
    with a(3) have f1: "f1 = []" by simp
    show ?thesis
      by (rule step_ok_I[where extraS = e2 and extraM = f2 and segs = "g1 @ g2"
            and maps = "m1 @ m2"])
         (use a b Nil f1 in \<open>simp_all add: chain_append\<close>)
  next
    case (Cons x xs)
    with a(3) obtain y ys where f1: "f1 = y # ys" by (cases f1) auto
    show ?thesis
      by (rule step_ok_I[where extraS = "e2 @ (x @ g2) # xs" and extraM = "f2 @ (y @ m2) # ys"
            and segs = g1 and maps = m1])
         (use a b Cons f1 in simp_all)
  qed
qed

lemma emit_indent_ok: "nonempty s \<Longrightarrow> step_ok s (emit_indent s)"
  by (rule step_ok_I[where extraS = "[]" and extraM = "[]" and segs = "[]" and maps = "[]"])
     (simp_all add: nonempty_def emit_indent_def)

lemma emit_dedent_ok: "nonempty s \<Longrightarrow> step_ok s (emit_dedent s)"
  by (rule step_ok_I[where extraS = "[]" and extraM = "[]" and segs = "[]" and maps = "[]"])
     (simp_all add: nonempty_def emit_dedent_def)

lemma emit_newline_eq:
  "segmentsStack s = t # rest \<Longrightarrow>
   emit_newline s = (None, s\<lparr>offset := offset s + 1, segmentsStack := (t @ [ [0x0A]]) # rest,
                              needsIndent := True\<rparr>)"
  by (simp add: emit_newline_def top_push_def Let_def)

lemma emit_text_eq:
  "segmentsStack s = t # rest \<Longrightarrow>
   emit_text v s =
     (None, if needsIndent s
            then s\<lparr>offset := offset s + length (indent s) + length v,
                   segmentsStack := (t @ [indent s, v]) # rest, needsIndent := False\<rparr>
            else s\<lparr>offset := offset s + length v, segmentsStack := (t @ [v]) # rest\<rparr>)"
  by (simp add: emit_text_def top_push_def Let_def)

lemma emit_newline_ok: "nonempty s \<Longrightarrow> step_ok s (emit_newline s)"
proof -
  assume "nonempty s"
  then obtain t rest where st: "segmentsStack s = t # rest" and m: "mappingsStack s \<noteq> []"
    unfolding nonempty_def by (cases "segmentsStack s") auto
  show ?thesis
    by (rule step_ok_I[where extraS = "[]" and extraM = "[]" and segs = "[ [0x0A]]"
          and maps = "[]"])
       (use st m in \<open>simp_all add: emit_newline_eq\<close>)
qed

lemma emit_text_ok: "nonempty s \<Longrightarrow> step_ok s (emit_text v s)"
proof -
  assume "nonempty s"
  then obtain t rest where st: "segmentsStack s = t # rest" and m: "mappingsStack s \<noteq> []"
    unfolding nonempty_def by (cases "segmentsStack s") auto
  show ?thesis
  proof (cases "needsIndent s")
    case True
    show ?thesis
      by (rule step_ok_I[where extraS = "[]" and extraM = "[]" and segs = "[indent s, v]"
            and maps = "[]"])
         (use st m True in \<open>simp_all add: emit_text_eq\<close>)
  next
    case False
    show ?thesis
      by (rule step_ok_I[where extraS = "[]" and extraM = "[]" and segs = "[v]"
            and maps = "[]"])
         (use st m False in \<open>simp_all add: emit_text_eq\<close>)
  qed
qed

lemma enter_scope_nonempty: "nonempty (enter_scope s)"
  by (simp add: nonempty_def enter_scope_def)

text \<open>What \<^verbatim>\<open>captureMapping\<close> returns, with its pushes and its local arrays resolved.\<close>

lemma captureMapping_eq:
  assumes "tl (segmentsStack (snd (callback (enter_scope s)))) \<noteq> []"
    and "tl (mappingsStack (snd (callback (enter_scope s)))) \<noteq> []"
  shows "captureMapping hbsRange source callback s =
           scope_exit hbsRange source s (callback (enter_scope s))"
proof -
  obtain r s2 where run: "callback (enter_scope s) = (r, s2)"
    by (cases "callback (enter_scope s)")
  with assms obtain a as b bs where
    st: "tl (segmentsStack s2) = a # as" "tl (mappingsStack s2) = b # bs"
    by (cases "tl (segmentsStack s2)"; cases "tl (mappingsStack s2)") auto
  from run have run': "callback (s\<lparr>segmentsStack := [] # segmentsStack s,
                 mappingsStack := [] # mappingsStack s\<rparr>) = (r, s2)"
    by (simp add: enter_scope_def)
  show ?thesis
  proof (cases r)
    case None
    then show ?thesis
      by (simp add: captureMapping_def scope_exit_def run run' Let_def top_push_def
          push_top_def st)
  next
    case (Some e)
    then show ?thesis
      by (cases "read_message e")
         (simp_all add: captureMapping_def scope_exit_def run run' Let_def top_push_def
          push_top_def st)
  qed
qed

lemma callback_stacks:
  assumes cb: "step_ok (enter_scope s) (r, s2)"
  obtains extraS extraM g m where
    "segmentsStack s2 = extraS @ g # segmentsStack s"
    "mappingsStack s2 = extraM @ m # mappingsStack s"
    "length extraS = length extraM"
    "extraS = [] \<longrightarrow> offset s2 = offset s + length (concat g)
       \<and> chain (offset s) m (offset s2) \<and> list_all output_wf m"
  using cb unfolding step_ok_def by (auto simp: enter_scope_def)

lemma captureMapping_scope_exit:
  assumes ne: "nonempty s" and cb: "step_ok (enter_scope s) (callback (enter_scope s))"
  shows "captureMapping hbsRange source callback s =
           scope_exit hbsRange source s (callback (enter_scope s))"
proof -
  obtain r s2 where run: "callback (enter_scope s) = (r, s2)"
    by (cases "callback (enter_scope s)")
  from cb run have cb': "step_ok (enter_scope s) (r, s2)" by simp
  from cb' obtain eS eM g m where
    st: "segmentsStack s2 = eS @ g # segmentsStack s"
        "mappingsStack s2 = eM @ m # mappingsStack s"
    by (elim callback_stacks)
  from ne have "tl (eS @ g # segmentsStack s) \<noteq> []" "tl (eM @ m # mappingsStack s) \<noteq> []"
    unfolding nonempty_def by (cases eS; cases eM; simp)+
  with st run show ?thesis by (simp add: captureMapping_eq)
qed

lemma captureMapping_ok:
  assumes ne: "nonempty s" and cb: "step_ok (enter_scope s) (callback (enter_scope s))"
  shows "step_ok s (captureMapping hbsRange source callback s)"
proof -
  obtain r s2 where run: "callback (enter_scope s) = (r, s2)"
    by (cases "callback (enter_scope s)")
  from cb run have cb': "step_ok (enter_scope s) (r, s2)" by simp
  from cb' obtain eS eM g m where
    sg: "segmentsStack s2 = eS @ g # segmentsStack s"
    and sm: "mappingsStack s2 = eM @ m # mappingsStack s"
    and len: "length eS = length eM"
    and inv: "eS = [] \<longrightarrow> offset s2 = offset s + length (concat g)
       \<and> chain (offset s) m (offset s2) \<and> list_all output_wf m"
    by (elim callback_stacks)
  from inv have off: "eS = [] \<Longrightarrow> offset s2 = offset s + length (concat g)"
    and ch: "eS = [] \<Longrightarrow> chain (offset s) m (offset s2)"
    and wf: "eS = [] \<Longrightarrow> list_all output_wf m" by blast+
  from ne have hs: "segmentsStack s = (hd (segmentsStack s) @ []) # tl (segmentsStack s)"
    and hm: "mappingsStack s = (hd (mappingsStack s) @ []) # tl (mappingsStack s)"
    unfolding nonempty_def by simp_all
  note eq = captureMapping_scope_exit[where callback = callback and hbsRange = hbsRange
      and source = source, OF ne cb, unfolded run]
  let ?node = "MappingTree \<lparr>range_start = offset s, range_end = offset s2\<rparr> hbsRange
                 (local_array (length (mappingsStack s)) (mappingsStack s2)) source"
  let ?own = "local_array (length (segmentsStack s)) (segmentsStack s2)"
  have own: "?own = g" "local_array (length (mappingsStack s)) (mappingsStack s2) = m"
    unfolding sg sm by (rule local_array_at)+
  consider (raised) e raised where "r = Some e" "read_message e = Inl raised"
    | (caught) e msg where "r = Some e" "read_message e = Inr msg"
    | (same) "r = None" "offset s2 = offset s"
    | (commit) "r = None" "offset s2 \<noteq> offset s"
    by (cases r; cases "read_message (the r)") auto
  then show ?thesis
  proof cases
    case raised
    show ?thesis
      by (rule step_ok_I[where extraS = "eS @ [g]" and extraM = "eM @ [m]" and segs = "[]"
            and maps = "[]"])
         (use raised sg sm len hs hm in \<open>simp_all add: eq scope_exit_def\<close>)
  next
    case caught
    show ?thesis
    proof (cases eS)
      case Nil
      with len have eM: "eM = []" by simp
      show ?thesis
        by (rule step_ok_I[where extraS = "[]" and extraM = "[]" and segs = "[]"
              and maps = "[]"])
           (use caught sg sm Nil eM hs hm in \<open>simp_all add: eq scope_exit_def\<close>)
    next
      case (Cons x xs)
      with len obtain y ys where eM: "eM = y # ys" and l: "length xs = length ys"
        by (cases eM) auto
      show ?thesis
        by (rule step_ok_I[where extraS = "xs @ [g]" and extraM = "ys @ [m]" and segs = "[]"
              and maps = "[]"])
           (use caught sg sm Cons eM l hs hm in \<open>simp_all add: eq scope_exit_def\<close>)
    qed
  next
    case same
    show ?thesis
    proof (cases eS)
      case Nil
      with len have eM: "eM = []" by simp
      show ?thesis
        by (rule step_ok_I[where extraS = "[]" and extraM = "[]" and segs = "[]"
              and maps = "[]"])
           (use same sg sm Nil eM hs hm in \<open>simp_all add: eq scope_exit_def\<close>)
    next
      case (Cons x xs)
      with len obtain y ys where eM: "eM = y # ys" and l: "length xs = length ys"
        by (cases eM) auto
      show ?thesis
        by (rule step_ok_I[where extraS = "xs @ [g]" and extraM = "ys @ [m]" and segs = "[]"
              and maps = "[]"])
           (use same sg sm Cons eM l hs hm in \<open>simp_all add: eq scope_exit_def\<close>)
    qed
  next
    case commit
    show ?thesis
    proof (cases eS)
      case Nil
      with len have eM: "eM = []" by simp
      from ch[OF Nil] have "offset s \<le> offset s2" by (rule chain_le)
      with commit have lt: "offset s < offset s2" by simp
      show ?thesis
        by (rule step_ok_I[where extraS = "[]" and extraM = "[]" and segs = g
              and maps = "[?node]"])
           (use commit sg sm Nil eM off[OF Nil] ch[OF Nil] wf[OF Nil] lt own in
              \<open>auto simp: eq scope_exit_def push_top_def\<close>)
    next
      case (Cons x xs)
      with len obtain y ys where eM: "eM = y # ys" and l: "length xs = length ys"
        by (cases eM) auto
      have ts: "tl (segmentsStack s2) = (xs @ [g]) @ segmentsStack s"
        and tm: "tl (mappingsStack s2) = (ys @ [m]) @ mappingsStack s"
        unfolding sg sm Cons eM by simp_all
      from ne have nS: "segmentsStack s \<noteq> []" and nM: "mappingsStack s \<noteq> []"
        unfolding nonempty_def by simp_all
      have "push_top ?own ((xs @ [g]) @ segmentsStack s) =
              push_top ?own (xs @ [g]) @ segmentsStack s"
        by (rule push_top_append) simp
      then have ps: "push_top ?own (tl (segmentsStack s2)) =
              push_top ?own (xs @ [g]) @ (hd (segmentsStack s) @ []) # tl (segmentsStack s)"
        unfolding ts using nS by simp
      have "push_top [?node] ((ys @ [m]) @ mappingsStack s) =
              push_top [?node] (ys @ [m]) @ mappingsStack s"
        by (rule push_top_append) simp
      then have pm: "push_top [?node] (tl (mappingsStack s2)) =
              push_top [?node] (ys @ [m]) @ (hd (mappingsStack s) @ []) # tl (mappingsStack s)"
        unfolding tm using nM by simp
      have res: "snd (scope_exit hbsRange source s (r, s2)) =
          s2\<lparr>mappingsStack := push_top [?node] (tl (mappingsStack s2)),
             segmentsStack := push_top ?own (tl (segmentsStack s2))\<rparr>"
        using commit by (simp add: scope_exit_def)
      show ?thesis
        unfolding eq
      proof (rule step_ok_I[where extraS = "push_top ?own (xs @ [g])"
              and extraM = "push_top [?node] (ys @ [m])" and segs = "[]" and maps = "[]"])
        show "segmentsStack (snd (scope_exit hbsRange source s (r, s2))) =
            push_top ?own (xs @ [g]) @ (hd (segmentsStack s) @ []) # tl (segmentsStack s)"
          unfolding res using ps by simp
        show "mappingsStack (snd (scope_exit hbsRange source s (r, s2))) =
            push_top [?node] (ys @ [m]) @ (hd (mappingsStack s) @ []) # tl (mappingsStack s)"
          unfolding res using pm by simp
        show "length (push_top ?own (xs @ [g])) = length (push_top [?node] (ys @ [m]))"
          using l by (simp add: push_top_length)
      qed (simp_all add: push_top_def)
    qed
  qed
qed

lemma exec_ok:
  "nonempty s \<Longrightarrow> step_ok s (exec rf c s)"
  "nonempty s \<Longrightarrow> step_ok s (exec_list rf cs s)"
proof (induction rf c s and rf cs s rule: exec_exec_list.induct)
  case (1 rf s)
  then show ?case by (simp add: emit_indent_ok)
next
  case (2 rf s)
  then show ?case by (simp add: emit_dedent_ok)
next
  case (3 rf s)
  then show ?case by (simp add: emit_newline_ok)
next
  case (4 rf v s)
  then show ?case by (simp add: emit_text_ok)
next
  case (5 rf v hbsOffset hbsLength s)
  have "step_ok (enter_scope s) (emit_text v (enter_scope s))"
    by (rule emit_text_ok) (rule enter_scope_nonempty)
  with 5 show ?case
    by (simp add: emit_identifier_def Let_def captureMapping_ok)
next
  case (6 rf node cb s)
  have "step_ok (enter_scope s) (exec_list rf cb (enter_scope s))"
    by (rule 6) (rule enter_scope_nonempty)
  with 6(2) show ?case
    by (simp add: emit_forNode_def captureMapping_ok)
next
  case (7 rf e s)
  then show ?case by (simp add: step_ok_refl)
next
  case (8 rf body handler s)
  obtain r s1 where run: "exec_list rf body s = (r, s1)" by (cases "exec_list rf body s")
  with 8 have ok1: "step_ok s (r, s1)" by simp
  then have ne1: "nonempty s1" using step_ok_nonempty by fastforce
  show ?case
  proof (cases r)
    case None
    with run ok1 show ?thesis by simp
  next
    case (Some e)
    from 8(2)[OF run[symmetric] Some ne1] have "step_ok s1 (exec_list rf handler s1)" .
    with ok1 have "step_ok s (exec_list rf handler s1)" by (rule step_ok_trans)
    with run Some show ?thesis by simp
  qed
next
  case (9 rf s)
  then show ?case by (simp add: step_ok_refl)
next
  case (10 rf c cs s)
  obtain r s1 where run: "exec rf c s = (r, s1)" by (cases "exec rf c s")
  with 10 have ok1: "step_ok s (r, s1)" by simp
  then have ne1: "nonempty s1" using step_ok_nonempty by fastforce
  show ?case
  proof (cases r)
    case None
    with 10(2)[OF run[symmetric]] run ne1 have "step_ok s1 (exec_list rf cs s1)" by simp
    with ok1 have "step_ok s (exec_list rf cs s1)" by (rule step_ok_trans)
    with run None show ?thesis by simp
  next
    case (Some e)
    with run ok1 show ?thesis by simp
  qed
qed

lemma initial_nonempty: "nonempty initial"
  by (simp add: nonempty_def initial_def)

lemma exec_stack_nonempty: "nonempty s \<Longrightarrow> nonempty (snd (exec_list rf cs s))"
  using exec_ok(2) step_ok_nonempty by blast

lemma exec_ForNode_eq:
  assumes "nonempty s"
  shows "exec rf (ForNode node cb) s =
           scope_exit (rf node) (NodeOrigin node) s (exec_list rf cb (enter_scope s))"
proof -
  have "step_ok (enter_scope s) (exec_list rf cb (enter_scope s))"
    by (rule exec_ok) (rule enter_scope_nonempty)
  from captureMapping_scope_exit[where callback = "\<lambda>s'. exec_list rf cb s'", OF assms this]
  show ?thesis by (simp add: emit_forNode_def)
qed

lemma exec_Identifier_eq:
  assumes "nonempty s"
  shows "exec rf (Identifier v hbsOffset hbsLength) s =
           scope_exit
              \<lparr>range_start = Num hbsOffset,
               range_end = Num (hbsOffset + (case hbsLength of None \<Rightarrow> int (length v) | Some l \<Rightarrow> l))\<rparr>
              (IdentifierOrigin v) s (emit_text v (enter_scope s))"
proof -
  have "step_ok (enter_scope s) (emit_text v (enter_scope s))"
    by (rule emit_text_ok) (rule enter_scope_nonempty)
  from captureMapping_scope_exit[where callback = "emit_text v", OF assms this]
  show ?thesis by (simp add: emit_identifier_def Let_def)
qed

lemma exec_list_append:
  "exec_list rf (xs @ ys) s =
     (case exec_list rf xs s of (None, s') \<Rightarrow> exec_list rf ys s' | (Some e, s') \<Rightarrow> (Some e, s'))"
  by (induction xs arbitrary: s) (auto split: prod.splits option.splits)

text \<open>The depth of the stacks never shrinks, and both stacks grow alike.\<close>

lemma step_ok_depth:
  assumes "step_ok s c" "nonempty s"
  shows "length (segmentsStack s) \<le> length (segmentsStack (snd c))"
    and "length (mappingsStack (snd c)) + length (segmentsStack s) =
         length (segmentsStack (snd c)) + length (mappingsStack s)"
  using assms unfolding step_ok_def nonempty_def by auto

text \<open>
  A call that leaves the stacks as deep as it found them has only appended to their
  heads, and the offset and the appended mappings are accounted for.
\<close>

lemma step_ok_same_depth:
  assumes "step_ok s c" "nonempty s"
    and "length (segmentsStack (snd c)) = length (segmentsStack s)"
  shows "\<exists>segs maps.
    segmentsStack (snd c) = (hd (segmentsStack s) @ segs) # tl (segmentsStack s) \<and>
    mappingsStack (snd c) = (hd (mappingsStack s) @ maps) # tl (mappingsStack s) \<and>
    offset (snd c) = offset s + length (concat segs) \<and>
    chain (offset s) maps (offset (snd c)) \<and> list_all output_wf maps"
proof -
  from assms(1) obtain eS eM segs maps where a:
    "segmentsStack (snd c) = eS @ (hd (segmentsStack s) @ segs) # tl (segmentsStack s)"
    "mappingsStack (snd c) = eM @ (hd (mappingsStack s) @ maps) # tl (mappingsStack s)"
    "length eS = length eM"
    "eS = [] \<longrightarrow> offset (snd c) = offset s + length (concat segs) \<and>
        chain (offset s) maps (offset (snd c)) \<and> list_all output_wf maps"
    unfolding step_ok_def by blast
  from a(1) assms(2,3) have eS: "eS = []" unfolding nonempty_def by auto
  with a have eM: "eM = []" by simp
  from a eS eM show ?thesis by auto
qed

lemma scope_exit_depth:
  assumes "nonempty s" "length (segmentsStack s2) = Suc (length (segmentsStack s))"
    and "\<And>e. r = Some e \<Longrightarrow> \<exists>m. read_message e = Inr m"
  shows "length (segmentsStack (snd (scope_exit h src s (r, s2)))) = length (segmentsStack s)
       \<and> fst (scope_exit h src s (r, s2)) = None"
proof -
  from assms(1) obtain x xs where S: "segmentsStack s = x # xs"
    unfolding nonempty_def by (cases "segmentsStack s") auto
  with assms(2) have len: "length (segmentsStack s2) = Suc (Suc (length xs))" by simp
  show ?thesis
  proof (cases r)
    case None
    then show ?thesis by (simp add: scope_exit_def push_top_length S len)
  next
    case (Some e)
    with assms(3) obtain m where "read_message e = Inr m" by blast
    with Some show ?thesis by (simp add: scope_exit_def S len)
  qed
qed

lemma thrown_Cons:
  "thrown (c # cs) = (case thrown [c] of None \<Rightarrow> thrown cs | Some e \<Rightarrow> Some e)"
  by (cases c) (auto split: option.splits)

lemma thrown_readable:
  "list_all readable cs \<Longrightarrow> thrown cs = Some e \<Longrightarrow> \<exists>m. e = Readable m"
proof (induction cs arbitrary: e rule: thrown.induct)
  case (2 e' cs)
  then show ?case by (auto split: Exn.splits)
next
  case (3 body handler cs)
  then show ?case by (auto split: option.splits)
qed auto

text \<open>
  A driver whose thrown values all have a readable message: no catch block fails, the
  calls leave the stacks as deep as they found them, and a call throws only what the
  driver throws outside every scope.
\<close>

lemma exec_readable:
  "nonempty s \<Longrightarrow> readable c \<Longrightarrow>
     length (segmentsStack (snd (exec rf c s))) = length (segmentsStack s)
     \<and> fst (exec rf c s) = thrown [c]"
  "nonempty s \<Longrightarrow> list_all readable cs \<Longrightarrow>
     length (segmentsStack (snd (exec_list rf cs s))) = length (segmentsStack s)
     \<and> fst (exec_list rf cs s) = thrown cs"
proof (induction rf c s and rf cs s rule: exec_exec_list.induct)
  case (1 rf s)
  then show ?case by (simp add: emit_indent_def)
next
  case (2 rf s)
  then show ?case by (simp add: emit_dedent_def)
next
  case (3 rf s)
  then obtain t rest where "segmentsStack s = t # rest"
    unfolding nonempty_def by (cases "segmentsStack s") auto
  then show ?case by (simp add: emit_newline_eq)
next
  case (4 rf v s)
  then obtain t rest where "segmentsStack s = t # rest"
    unfolding nonempty_def by (cases "segmentsStack s") auto
  then show ?case by (simp add: emit_text_eq)
next
  case (5 rf v hbsOffset hbsLength s)
  have st: "segmentsStack (enter_scope s) = [] # segmentsStack s"
    by (simp add: enter_scope_def)
  obtain r s2 where run: "emit_text v (enter_scope s) = (r, s2)"
    by (cases "emit_text v (enter_scope s)")
  from emit_text_eq[OF st, of v] run have r: "r = None"
    and len: "length (segmentsStack s2) = Suc (length (segmentsStack s))"
    by (auto split: if_splits)
  from scope_exit_depth[OF 5(1) len, of r] r show ?case
    unfolding exec_Identifier_eq[OF 5(1)] run by simp
next
  case (6 rf node cb s)
  have ne: "nonempty (enter_scope s)" by (rule enter_scope_nonempty)
  from 6(3) have rd: "list_all readable cb" by simp
  obtain r s2 where run: "exec_list rf cb (enter_scope s) = (r, s2)"
    by (cases "exec_list rf cb (enter_scope s)")
  from 6(1)[OF ne rd] run have len: "length (segmentsStack s2) = Suc (length (segmentsStack s))"
    and r: "r = thrown cb" by (simp_all add: enter_scope_def)
  have caught: "\<exists>m. read_message e = Inr m" if "r = Some e" for e
    using thrown_readable[OF rd, of e] r that by auto
  from scope_exit_depth[OF 6(2) len, of r] caught show ?case
    unfolding exec_ForNode_eq[OF 6(2)] run by simp
next
  case (7 rf e s)
  then show ?case by simp
next
  case (8 rf body handler s)
  from 8(4) have rb: "list_all readable body" and rh: "list_all readable handler" by simp_all
  obtain r s1 where run: "exec_list rf body s = (r, s1)" by (cases "exec_list rf body s")
  from exec_ok(2)[OF 8(3), of rf body] run have ne1: "nonempty s1"
    using step_ok_nonempty by fastforce
  from 8(1)[OF 8(3) rb] run have len: "length (segmentsStack s1) = length (segmentsStack s)"
    and r: "r = thrown body" by simp_all
  show ?case
  proof (cases r)
    case None
    from None r have t: "thrown body = None" by simp
    from run None len show ?thesis by (simp add: t)
  next
    case (Some e)
    from Some r have t: "thrown body = Some e" by simp
    from 8(2)[OF run[symmetric] Some ne1 rh] run Some len show ?thesis
      by (auto simp: t split: option.splits)
  qed
next
  case (9 rf s)
  then show ?case by simp
next
  case (10 rf c cs s)
  from 10(4) have rc: "readable c" and rcs: "list_all readable cs" by simp_all
  obtain r s1 where run: "exec rf c s = (r, s1)" by (cases "exec rf c s")
  from exec_ok(1)[OF 10(3), of rf c] run have ne1: "nonempty s1"
    using step_ok_nonempty by fastforce
  from 10(1)[OF 10(3) rc] run have len: "length (segmentsStack s1) = length (segmentsStack s)"
    and r: "r = thrown [c]" by simp_all
  show ?case
  proof (cases r)
    case None
    from None r have t: "thrown [c] = None" by simp
    from 10(2)[OF run[symmetric] None ne1 rcs] run None len show ?thesis
      by (simp add: thrown_Cons[of c cs] t)
  next
    case (Some e)
    from Some r have t: "thrown [c] = Some e" by simp
    from run Some len show ?thesis by (simp add: thrown_Cons[of c cs] t)
  qed
qed

lemma scope_exit_caught:
  "read_message e = Inr m \<Longrightarrow>
   scope_exit h src s (Some e, s2) =
     (None, s2\<lparr>errors := errors s2 @ [\<lparr>message = m, location = h\<rparr>], offset := offset s,
               mappingsStack := tl (mappingsStack s2), segmentsStack := tl (segmentsStack s2)\<rparr>)"
  by (simp add: scope_exit_def)

lemma scope_exit_raised:
  "read_message e = Inl raised \<Longrightarrow> scope_exit h src s (Some e, s2) = (Some raised, s2)"
  by (simp add: scope_exit_def)

lemma scope_exit_same:
  "offset s2 = offset s \<Longrightarrow>
   scope_exit h src s (None, s2) =
     (None, s2\<lparr>mappingsStack := tl (mappingsStack s2), segmentsStack := tl (segmentsStack s2)\<rparr>)"
  by (simp add: scope_exit_def)

lemma scope_exit_normal [simp]:
  "fst (scope_exit h src s (None, s2)) = None"
  "errors (snd (scope_exit h src s (None, s2))) = errors s2"
  "offset (snd (scope_exit h src s (None, s2))) = offset s2"
  by (simp_all add: scope_exit_def)

lemma scope_exit_indent [simp]:
  "needsIndent (snd (scope_exit h src s (r, s2))) = needsIndent s2"
  "indent (snd (scope_exit h src s (r, s2))) = indent s2"
  by (cases r; cases "read_message (the r)"; simp add: scope_exit_def)+

lemma enter_scope_fields [simp]:
  "errors (enter_scope s) = errors s" "offset (enter_scope s) = offset s"
  "needsIndent (enter_scope s) = needsIndent s" "indent (enter_scope s) = indent s"
  "segmentsStack (enter_scope s) = [] # segmentsStack s"
  "mappingsStack (enter_scope s) = [] # mappingsStack s"
  by (simp_all add: enter_scope_def)

lemma emit_text_errors: "errors (snd (emit_text v s)) = errors s"
  by (simp add: emit_text_def Let_def split: option.splits)

lemma emit_newline_errors: "errors (snd (emit_newline s)) = errors s"
  by (simp add: emit_newline_def Let_def split: option.splits)

lemma emit_text_enter:
  "fst (emit_text v (enter_scope s)) = None
   \<and> length (segmentsStack (snd (emit_text v (enter_scope s)))) = Suc (length (segmentsStack s))
   \<and> errors (snd (emit_text v (enter_scope s))) = errors s"
  using emit_text_eq[of "enter_scope s" "[]" "segmentsStack s" v] by simp

text \<open>
  Everything that was on the stacks before a \<^verbatim>\<open>forNode\<close> call whose callback does not end
  in a commit is on them after it, unchanged.
\<close>

lemma callback_suffix:
  assumes "nonempty s"
  shows "suffix (segmentsStack s) (tl (segmentsStack (snd (exec_list rf cb (enter_scope s)))))"
    and "suffix (mappingsStack s) (tl (mappingsStack (snd (exec_list rf cb (enter_scope s)))))"
proof -
  obtain r s2 where run: "exec_list rf cb (enter_scope s) = (r, s2)"
    by (cases "exec_list rf cb (enter_scope s)")
  have "step_ok (enter_scope s) (r, s2)"
    using exec_ok(2)[OF enter_scope_nonempty, of s rf cb] run by simp
  then obtain eS eM g m where
    st: "segmentsStack s2 = eS @ g # segmentsStack s" "mappingsStack s2 = eM @ m # mappingsStack s"
    by (elim callback_stacks)
  have "tl (segmentsStack s2) = tl (eS @ [g]) @ segmentsStack s"
    unfolding st by (cases eS) simp_all
  then show "suffix (segmentsStack s) (tl (segmentsStack (snd (exec_list rf cb (enter_scope s)))))"
    unfolding run by (simp add: suffix_def)
  have "tl (mappingsStack s2) = tl (eM @ [m]) @ mappingsStack s"
    unfolding st by (cases eM) simp_all
  then show "suffix (mappingsStack s) (tl (mappingsStack (snd (exec_list rf cb (enter_scope s)))))"
    unfolding run by (simp add: suffix_def)
qed

text \<open>
  A callback that leaves the stacks as deep as it found them leaves the arrays of its own
  scope at their heads and the stacks of the caller below them.
\<close>

lemma callback_same_depth:
  assumes "nonempty s"
    and "length (segmentsStack (snd (exec_list rf cb (enter_scope s)))) =
         length (segmentsStack (enter_scope s))"
  shows "tl (segmentsStack (snd (exec_list rf cb (enter_scope s)))) = segmentsStack s"
    and "tl (mappingsStack (snd (exec_list rf cb (enter_scope s)))) = mappingsStack s"
    and "offset (snd (exec_list rf cb (enter_scope s))) = offset s \<Longrightarrow>
         hd (mappingsStack (snd (exec_list rf cb (enter_scope s)))) = []"
proof -
  let ?run = "exec_list rf cb (enter_scope s)"
  have ok: "step_ok (enter_scope s) ?run"
    by (rule exec_ok) (rule enter_scope_nonempty)
  from step_ok_same_depth[OF ok enter_scope_nonempty assms(2)] obtain segs maps where
    st: "segmentsStack (snd ?run) = segs # segmentsStack s"
      "mappingsStack (snd ?run) = maps # mappingsStack s"
    and ch: "chain (offset s) maps (offset (snd ?run))"
    by (auto simp: enter_scope_def)
  from st show "tl (segmentsStack (snd ?run)) = segmentsStack s"
    and "tl (mappingsStack (snd ?run)) = mappingsStack s" by simp_all
  show "hd (mappingsStack (snd ?run)) = []" if "offset (snd ?run) = offset s"
  proof (cases maps)
    case Nil
    with st show ?thesis by simp
  next
    case (Cons a as)
    with ch have "offset s < range_end (outputRange a)"
      and "chain (range_end (outputRange a)) as (offset (snd ?run))" by auto
    with chain_le that show ?thesis by fastforce
  qed
qed

lemma callback_readable_depth:
  assumes "nonempty s" "list_all readable cb"
  shows "length (segmentsStack (snd (exec_list rf cb (enter_scope s)))) =
         length (segmentsStack (enter_scope s))"
  using exec_readable(2)[OF enter_scope_nonempty assms(2)] by simp

section \<open>Scopes that emit nothing\<close>

text \<open>
  Claim C6. A \<^verbatim>\<open>forNode\<close> or \<^verbatim>\<open>identifier\<close> call whose callback returns normally with the
  output offset unchanged returns normally and creates no mapping node: both stacks of
  the caller, with the child mapping list and the segment list of the parent scope, are
  on the stacks after the call exactly as before it. When the callback has left the
  stacks as deep as it found them, which every callback does that throws only values
  with a readable message, the stacks after the call are the stacks before it and the
  mapping list that the scope itself collected and discards is empty.
\<close>

theorem empty_scope_eliminated:
  assumes "nonempty s"
  shows "(fst (exec_list rf cb (enter_scope s)) = None \<and>
          offset (snd (exec_list rf cb (enter_scope s))) = offset s \<longrightarrow>
            fst (exec rf (ForNode node cb) s) = None \<and>
            suffix (mappingsStack s) (mappingsStack (snd (exec rf (ForNode node cb) s))) \<and>
            suffix (segmentsStack s) (segmentsStack (snd (exec rf (ForNode node cb) s))) \<and>
            (list_all readable cb \<longrightarrow>
               length (segmentsStack (snd (exec_list rf cb (enter_scope s)))) =
               length (segmentsStack (enter_scope s))) \<and>
            (length (segmentsStack (snd (exec_list rf cb (enter_scope s)))) =
             length (segmentsStack (enter_scope s)) \<longrightarrow>
               mappingsStack (snd (exec rf (ForNode node cb) s)) = mappingsStack s \<and>
               segmentsStack (snd (exec rf (ForNode node cb) s)) = segmentsStack s \<and>
               hd (mappingsStack (snd (exec_list rf cb (enter_scope s)))) = []))
       \<and> (fst (emit_text v (enter_scope s)) = None \<and>
          offset (snd (emit_text v (enter_scope s))) = offset s \<longrightarrow>
            fst (exec rf (Identifier v hbsOffset hbsLength) s) = None \<and>
            mappingsStack (snd (exec rf (Identifier v hbsOffset hbsLength) s)) = mappingsStack s \<and>
            segmentsStack (snd (exec rf (Identifier v hbsOffset hbsLength) s)) = segmentsStack s)"
proof (intro conjI impI)
  assume a: "fst (exec_list rf cb (enter_scope s)) = None \<and>
          offset (snd (exec_list rf cb (enter_scope s))) = offset s"
  obtain r s2 where run: "exec_list rf cb (enter_scope s) = (r, s2)"
    by (cases "exec_list rf cb (enter_scope s)")
  with a have r: "r = None" and off: "offset s2 = offset s" by simp_all
  have F: "exec rf (ForNode node cb) s =
      (None, s2\<lparr>mappingsStack := tl (mappingsStack s2), segmentsStack := tl (segmentsStack s2)\<rparr>)"
    unfolding exec_ForNode_eq[OF assms] run r by (rule scope_exit_same[OF off])
  show "fst (exec rf (ForNode node cb) s) = None" unfolding F by simp
  show "suffix (mappingsStack s) (mappingsStack (snd (exec rf (ForNode node cb) s)))"
    unfolding F using callback_suffix(2)[OF assms, of rf cb] run by simp
  show "suffix (segmentsStack s) (segmentsStack (snd (exec rf (ForNode node cb) s)))"
    unfolding F using callback_suffix(1)[OF assms, of rf cb] run by simp
  show "length (segmentsStack (snd (exec_list rf cb (enter_scope s)))) =
        length (segmentsStack (enter_scope s))" if "list_all readable cb"
    using assms that by (rule callback_readable_depth)
  assume d: "length (segmentsStack (snd (exec_list rf cb (enter_scope s)))) =
             length (segmentsStack (enter_scope s))"
  show "mappingsStack (snd (exec rf (ForNode node cb) s)) = mappingsStack s"
    unfolding F using callback_same_depth(2)[OF assms d] run by simp
  show "segmentsStack (snd (exec rf (ForNode node cb) s)) = segmentsStack s"
    unfolding F using callback_same_depth(1)[OF assms d] run by simp
  show "hd (mappingsStack (snd (exec_list rf cb (enter_scope s)))) = []"
    using callback_same_depth(3)[OF assms d] a by simp
next
  assume a: "fst (emit_text v (enter_scope s)) = None \<and>
          offset (snd (emit_text v (enter_scope s))) = offset s"
  obtain r s2 where run: "emit_text v (enter_scope s) = (r, s2)"
    by (cases "emit_text v (enter_scope s)")
  with a have r: "r = None" and off: "offset s2 = offset s" by simp_all
  from emit_text_eq[of "enter_scope s" "[]" "segmentsStack s" v] run
  have tl: "tl (segmentsStack s2) = segmentsStack s" "tl (mappingsStack s2) = mappingsStack s"
    by (auto split: if_splits)
  note F = exec_Identifier_eq[OF assms, of rf v hbsOffset hbsLength, unfolded run r
      scope_exit_same[OF off]]
  show "fst (exec rf (Identifier v hbsOffset hbsLength) s) = None"
    unfolding F by simp
  show "mappingsStack (snd (exec rf (Identifier v hbsOffset hbsLength) s)) = mappingsStack s"
    unfolding F using tl by simp
  show "segmentsStack (snd (exec rf (Identifier v hbsOffset hbsLength) s)) = segmentsStack s"
    unfolding F using tl by simp
qed

theorem empty_scope_eliminated_witness:
  "nonempty initial
   \<and> fst (exec_list (calculateLineOffsets abc) [Text []] (enter_scope initial)) = None
   \<and> offset (snd (exec_list (calculateLineOffsets abc) [Text []] (enter_scope initial))) = offset initial
   \<and> list_all readable [Text []]
   \<and> mappingsStack (snd (exec (calculateLineOffsets abc) (ForNode ast_abc [Text []]) initial)) = [ []]
   \<and> segmentsStack (snd (exec (calculateLineOffsets abc) (ForNode ast_abc [Text []]) initial)) = [ []]
   \<and> fst (emit_text [] (enter_scope initial)) = None
   \<and> offset (snd (emit_text [] (enter_scope initial))) = offset initial
   \<and> mappingsStack (snd (exec (calculateLineOffsets abc) (Identifier [] 0 None) initial)) = [ []]
   \<and> segmentsStack (snd (exec (calculateLineOffsets abc) (Identifier [] 0 None) initial)) = [ []]"
proof -
  have h: "nonempty initial" by (simp add: nonempty_def initial_def)
  have c: "fst (exec_list (calculateLineOffsets abc) [Text []] (enter_scope initial)) = None
    \<and> offset (snd (exec_list (calculateLineOffsets abc) [Text []] (enter_scope initial))) = offset initial"
    by (simp add: emit_text_def top_push_def enter_scope_def initial_def)
  have t: "fst (emit_text [] (enter_scope initial)) = None
    \<and> offset (snd (emit_text [] (enter_scope initial))) = offset initial"
    by (simp add: emit_text_def top_push_def enter_scope_def initial_def)
  have r: "list_all readable [Text []]" by simp
  from empty_scope_eliminated[OF h, where rf = "calculateLineOffsets abc" and cb = "[Text []]"
      and node = ast_abc and v = "[]" and hbsOffset = 0 and hbsLength = None] c t r
  have "mappingsStack (snd (exec (calculateLineOffsets abc) (ForNode ast_abc [Text []]) initial))
          = mappingsStack initial
   \<and> segmentsStack (snd (exec (calculateLineOffsets abc) (ForNode ast_abc [Text []]) initial))
          = segmentsStack initial
   \<and> mappingsStack (snd (exec (calculateLineOffsets abc) (Identifier [] 0 None) initial))
          = mappingsStack initial
   \<and> segmentsStack (snd (exec (calculateLineOffsets abc) (Identifier [] 0 None) initial))
          = segmentsStack initial"
    by blast
  then show ?thesis using h c t r by (simp add: initial_def)
qed

lemma scope_exit_errors_prefix:
  "prefix (errors s) (errors s2) \<Longrightarrow>
   prefix (errors s) (errors (snd (scope_exit h src s (r, s2))))"
  by (cases r; cases "read_message (the r)") (auto simp: scope_exit_def prefix_def)

lemma exec_errors_prefix:
  "nonempty s \<Longrightarrow> prefix (errors s) (errors (snd (exec rf c s)))"
  "nonempty s \<Longrightarrow> prefix (errors s) (errors (snd (exec_list rf cs s)))"
proof (induction rf c s and rf cs s rule: exec_exec_list.induct)
  case (5 rf v hbsOffset hbsLength s)
  obtain r s2 where run: "emit_text v (enter_scope s) = (r, s2)"
    by (cases "emit_text v (enter_scope s)")
  from emit_text_errors[of v "enter_scope s"] run have "prefix (errors s) (errors s2)" by simp
  then show ?case
    unfolding exec_Identifier_eq[OF 5] run by (rule scope_exit_errors_prefix)
next
  case (6 rf node cb s)
  obtain r s2 where run: "exec_list rf cb (enter_scope s) = (r, s2)"
    by (cases "exec_list rf cb (enter_scope s)")
  have "nonempty (enter_scope s)" by (rule enter_scope_nonempty)
  from 6(1)[OF this] run have "prefix (errors s) (errors s2)" by simp
  then show ?case
    unfolding exec_ForNode_eq[OF 6(2)] run by (rule scope_exit_errors_prefix)
next
  case (8 rf body handler s)
  obtain r s1 where run: "exec_list rf body s = (r, s1)" by (cases "exec_list rf body s")
  from exec_ok(2)[OF 8(3), of rf body] run have ne1: "nonempty s1"
    using step_ok_nonempty by fastforce
  from 8(1)[OF 8(3)] run have p1: "prefix (errors s) (errors s1)" by simp
  show ?case
  proof (cases r)
    case None
    with run p1 show ?thesis by simp
  next
    case (Some e)
    from 8(2)[OF run[symmetric] Some ne1] p1 run Some show ?thesis
      by (auto intro: prefix_order.trans)
  qed
next
  case (10 rf c cs s)
  obtain r s1 where run: "exec rf c s = (r, s1)" by (cases "exec rf c s")
  from exec_ok(1)[OF 10(3), of rf c] run have ne1: "nonempty s1"
    using step_ok_nonempty by fastforce
  from 10(1)[OF 10(3)] run have p1: "prefix (errors s) (errors s1)" by simp
  show ?case
  proof (cases r)
    case None
    from 10(2)[OF run[symmetric] None ne1] p1 run None show ?thesis
      by (auto intro: prefix_order.trans)
  next
    case (Some e)
    with run p1 show ?thesis by simp
  qed
qed (simp_all add: emit_indent_def emit_dedent_def emit_text_errors emit_newline_errors)

lemma exec_errors_same:
  "nonempty s \<Longrightarrow> readable c \<Longrightarrow> no_failing_scope c \<Longrightarrow>
     errors (snd (exec rf c s)) = errors s"
  "nonempty s \<Longrightarrow> list_all readable cs \<Longrightarrow> list_all no_failing_scope cs \<Longrightarrow>
     errors (snd (exec_list rf cs s)) = errors s"
proof (induction rf c s and rf cs s rule: exec_exec_list.induct)
  case (5 rf v hbsOffset hbsLength s)
  obtain r s2 where run: "emit_text v (enter_scope s) = (r, s2)"
    by (cases "emit_text v (enter_scope s)")
  from emit_text_enter[of v s] run have r: "r = None" and "errors s2 = errors s" by simp_all
  then show ?case
    unfolding exec_Identifier_eq[OF 5(1)] run r by simp
next
  case (6 rf node cb s)
  obtain r s2 where run: "exec_list rf cb (enter_scope s) = (r, s2)"
    by (cases "exec_list rf cb (enter_scope s)")
  from 6(3) have rd: "list_all readable cb" by simp
  from 6(4) have t: "thrown cb = None" and a: "list_all no_failing_scope cb" by simp_all
  have ne: "nonempty (enter_scope s)" by (rule enter_scope_nonempty)
  from exec_readable(2)[OF ne rd, of rf] run t have r: "r = None" by simp
  from 6(1)[OF ne rd a] run have "errors s2 = errors s" by simp
  then show ?case
    unfolding exec_ForNode_eq[OF 6(2)] run r by simp
next
  case (8 rf body handler s)
  from 8(4) have rb: "list_all readable body" and rh: "list_all readable handler" by simp_all
  from 8(5) have nb: "list_all no_failing_scope body"
    and nh: "list_all no_failing_scope handler" by simp_all
  obtain r s1 where run: "exec_list rf body s = (r, s1)" by (cases "exec_list rf body s")
  from exec_ok(2)[OF 8(3), of rf body] run have ne1: "nonempty s1"
    using step_ok_nonempty by fastforce
  from 8(1)[OF 8(3) rb nb] run have p1: "errors s1 = errors s" by simp
  show ?case
  proof (cases r)
    case None
    with run p1 show ?thesis by simp
  next
    case (Some e)
    from 8(2)[OF run[symmetric] Some ne1 rh nh] p1 run Some show ?thesis by simp
  qed
next
  case (10 rf c cs s)
  obtain r s1 where run: "exec rf c s = (r, s1)" by (cases "exec rf c s")
  from exec_ok(1)[OF 10(3), of rf c] run have ne1: "nonempty s1"
    using step_ok_nonempty by fastforce
  from 10(4) have rc: "readable c" and rcs: "list_all readable cs" by simp_all
  from 10(5) have c: "no_failing_scope c" and cs: "list_all no_failing_scope cs" by simp_all
  from 10(1)[OF 10(3) rc c] run have p1: "errors s1 = errors s" by simp
  show ?case
  proof (cases r)
    case None
    from 10(2)[OF run[symmetric] None ne1 rcs cs] p1 run None show ?thesis by simp
  next
    case (Some e)
    with run p1 show ?thesis by simp
  qed
qed (simp_all add: emit_indent_def emit_dedent_def emit_text_errors emit_newline_errors)

section \<open>Rollback of a failed scope\<close>

text \<open>
  Claim C1, amended. When the callback of a \<^verbatim>\<open>forNode\<close> call throws a value whose message
  can be read, the call returns normally, the output offset is again what it was before
  the call, and both stacks of the caller, with the segment list and the child mapping
  list of the parent scope, are on the stacks unchanged; when every value thrown inside
  the callback has a readable message, the stacks are the stacks before the call. The
  call appends exactly one entry \<open>{message, location}\<close> with the node's source range, after
  the entries that failed scopes nested in the callback have appended before the throw;
  when no scope nested in the callback fails, exactly one entry is appended by the whole
  call. (The callback of \<^verbatim>\<open>identifier\<close> only calls \<^verbatim>\<open>text\<close> and never throws. Nothing is
  said here of a thrown value whose message cannot be read.)
\<close>

theorem failed_scope_rolled_back:
  assumes "nonempty s" and "fst (exec_list rf cb (enter_scope s)) = Some e"
    and "read_message e = Inr m"
  shows "fst (exec rf (ForNode node cb) s) = None
       \<and> offset (snd (exec rf (ForNode node cb) s)) = offset s
       \<and> suffix (segmentsStack s) (segmentsStack (snd (exec rf (ForNode node cb) s)))
       \<and> suffix (mappingsStack s) (mappingsStack (snd (exec rf (ForNode node cb) s)))
       \<and> errors (snd (exec rf (ForNode node cb) s)) =
           errors (snd (exec_list rf cb (enter_scope s))) @
             [\<lparr>message = m, location = rf node\<rparr>]
       \<and> prefix (errors s) (errors (snd (exec_list rf cb (enter_scope s))))
       \<and> (list_all readable cb \<longrightarrow>
            segmentsStack (snd (exec rf (ForNode node cb) s)) = segmentsStack s
            \<and> mappingsStack (snd (exec rf (ForNode node cb) s)) = mappingsStack s)
       \<and> (list_all readable cb \<and> list_all no_failing_scope cb \<longrightarrow>
            errors (snd (exec rf (ForNode node cb) s)) =
              errors s @ [\<lparr>message = m, location = rf node\<rparr>])"
proof -
  obtain s2 where run: "exec_list rf cb (enter_scope s) = (Some e, s2)"
    using assms(2) by (cases "exec_list rf cb (enter_scope s)") simp
  have ne: "nonempty (enter_scope s)" by (rule enter_scope_nonempty)
  have F: "exec rf (ForNode node cb) s =
      (None, s2\<lparr>errors := errors s2 @ [\<lparr>message = m, location = rf node\<rparr>], offset := offset s,
                mappingsStack := tl (mappingsStack s2), segmentsStack := tl (segmentsStack s2)\<rparr>)"
    unfolding exec_ForNode_eq[OF assms(1)] run by (rule scope_exit_caught[OF assms(3)])
  have p: "prefix (errors s) (errors s2)"
    using exec_errors_prefix(2)[OF ne, of rf cb] run by simp
  have sfx: "suffix (segmentsStack s) (tl (segmentsStack s2))"
    "suffix (mappingsStack s) (tl (mappingsStack s2))"
    using callback_suffix[OF assms(1), of rf cb] run by simp_all
  have same: "tl (segmentsStack s2) = segmentsStack s \<and> tl (mappingsStack s2) = mappingsStack s"
    if "list_all readable cb"
    using callback_same_depth(1,2)[OF assms(1) callback_readable_depth[OF assms(1) that], of rf]
      run by simp
  have errs: "errors s2 = errors s" if "list_all readable cb" "list_all no_failing_scope cb"
    using exec_errors_same(2)[OF ne that, of rf] run by simp
  show ?thesis unfolding F run using p sfx same errs by simp
qed

theorem failed_scope_rolled_back_witness:
  "nonempty initial
   \<and> fst (exec_list (calculateLineOffsets abc) [Text [0x62], Throw (Error msg1)] (enter_scope initial))
       = Some (Error msg1)
   \<and> read_message (Error msg1) = Inr (Str msg1)
   \<and> list_all readable [Text [0x62], Throw (Error msg1)]
   \<and> list_all no_failing_scope [Text [0x62], Throw (Error msg1)]
   \<and> fst (exec (calculateLineOffsets abc) (ForNode ast_abc [Text [0x62], Throw (Error msg1)]) initial) = None
   \<and> offset (snd (exec (calculateLineOffsets abc) (ForNode ast_abc [Text [0x62], Throw (Error msg1)]) initial)) = 0
   \<and> segmentsStack (snd (exec (calculateLineOffsets abc) (ForNode ast_abc [Text [0x62], Throw (Error msg1)]) initial)) = [ []]
   \<and> mappingsStack (snd (exec (calculateLineOffsets abc) (ForNode ast_abc [Text [0x62], Throw (Error msg1)]) initial)) = [ []]
   \<and> errors (snd (exec (calculateLineOffsets abc) (ForNode ast_abc [Text [0x62], Throw (Error msg1)]) initial)) =
       [\<lparr>message = Str msg1, location = calculateLineOffsets abc ast_abc\<rparr>]"
proof -
  have h: "nonempty initial" by (simp add: nonempty_def initial_def)
  have c: "fst (exec_list (calculateLineOffsets abc) [Text [0x62], Throw (Error msg1)] (enter_scope initial))
       = Some (Error msg1)"
    by (simp add: emit_text_def top_push_def enter_scope_def initial_def)
  have m: "read_message (Error msg1) = Inr (Str msg1)" by simp
  have n: "list_all readable [Text [0x62], Throw (Error msg1)]
     \<and> list_all no_failing_scope [Text [0x62], Throw (Error msg1)]" by simp
  from failed_scope_rolled_back[OF h c m, of ast_abc] n
  have "fst (exec (calculateLineOffsets abc) (ForNode ast_abc [Text [0x62], Throw (Error msg1)]) initial) = None
   \<and> offset (snd (exec (calculateLineOffsets abc) (ForNode ast_abc [Text [0x62], Throw (Error msg1)]) initial)) = offset initial
   \<and> segmentsStack (snd (exec (calculateLineOffsets abc) (ForNode ast_abc [Text [0x62], Throw (Error msg1)]) initial)) = segmentsStack initial
   \<and> mappingsStack (snd (exec (calculateLineOffsets abc) (ForNode ast_abc [Text [0x62], Throw (Error msg1)]) initial)) = mappingsStack initial
   \<and> errors (snd (exec (calculateLineOffsets abc) (ForNode ast_abc [Text [0x62], Throw (Error msg1)]) initial)) =
       errors initial @ [\<lparr>message = Str msg1, location = calculateLineOffsets abc ast_abc\<rparr>]"
    by blast
  then show ?thesis using h c m n by (simp add: initial_def)
qed

text \<open>
  Claim C1 as stated fails: the callback \<open>nested_failure\<close> emits a character and then
  throws, and the call appends two entries to the errors list, not exactly one.
\<close>

theorem nested_failure_two_errors:
  "fst (exec_list (calculateLineOffsets abc) nested_failure (enter_scope initial)) = Some (Error msg1)
   \<and> offset initial < offset (snd (exec_list (calculateLineOffsets abc) nested_failure (enter_scope initial)))
   \<and> errors (snd (exec (calculateLineOffsets abc) (ForNode ast_abc nested_failure) initial)) =
       errors initial @ [\<lparr>message = Str msg2, location = calculateLineOffsets abc ast_abc\<rparr>,
                         \<lparr>message = Str msg1, location = calculateLineOffsets abc ast_abc\<rparr>]
   \<and> errors (snd (exec (calculateLineOffsets abc) (ForNode ast_abc nested_failure) initial)) \<noteq>
       errors initial @ [\<lparr>message = Str msg1, location = calculateLineOffsets abc ast_abc\<rparr>]"
  by (simp add: nested_failure_def emit_forNode_def captureMapping_def emit_text_def top_push_def
      enter_scope_def initial_def Let_def local_array_def)

section \<open>The pending-indentation flag across a rollback\<close>

text \<open>
  Claim C10. The rollback of a failed scope restores the output offset but not the flag
  \<^verbatim>\<open>needsIndent\<close>. When the callback of a \<^verbatim>\<open>forNode\<close> call, after calls that return normally,
  calls \<^verbatim>\<open>newline()\<close> and then throws a value whose message can be read, the call returns
  with the offset as before the call, with the stacks of the caller unchanged (and nothing
  above them when the earlier calls have left the stacks as deep as they found them, as
  they do when all they throw has a readable message) and with the flag set, so the next
  \<^verbatim>\<open>text(v)\<close> first emits the current indentation prefix and then \<open>v\<close>. Whatever value
  the callback throws after \<^verbatim>\<open>newline()\<close>, the flag is set when the call is left. With the
  driver \<open>pending_indent_driver\<close> the returned code is two spaces and \<^verbatim>\<open>x\<close>: an
  indentation prefix without any newline in the output.
\<close>

theorem pending_indent_survives_rollback:
  assumes "nonempty s" and "fst (exec_list rf cb (enter_scope s)) = None"
  shows "fst (exec rf (ForNode node (cb @ [Newline, Throw (Readable m)])) s) = None
       \<and> needsIndent (snd (exec rf (ForNode node (cb @ [Newline, Throw (Readable m)])) s))
       \<and> offset (snd (exec rf (ForNode node (cb @ [Newline, Throw (Readable m)])) s)) = offset s
       \<and> suffix (segmentsStack s)
            (segmentsStack (snd (exec rf (ForNode node (cb @ [Newline, Throw (Readable m)])) s)))
       \<and> (list_all readable cb \<longrightarrow>
            length (segmentsStack (snd (exec_list rf cb (enter_scope s)))) =
            length (segmentsStack (enter_scope s)))
       \<and> (length (segmentsStack (snd (exec_list rf cb (enter_scope s)))) =
          length (segmentsStack (enter_scope s)) \<longrightarrow>
            segmentsStack (snd (exec rf (ForNode node (cb @ [Newline, Throw (Readable m)])) s)) =
            segmentsStack s)
       \<and> exec rf (Text v) (snd (exec rf (ForNode node (cb @ [Newline, Throw (Readable m)])) s)) =
           (None, (snd (exec rf (ForNode node (cb @ [Newline, Throw (Readable m)])) s))
              \<lparr>offset := offset s
                  + length (indent (snd (exec rf (ForNode node (cb @ [Newline, Throw (Readable m)])) s)))
                  + length v,
               segmentsStack :=
                 (hd (segmentsStack
                        (snd (exec rf (ForNode node (cb @ [Newline, Throw (Readable m)])) s))) @
                    [indent (snd (exec rf (ForNode node (cb @ [Newline, Throw (Readable m)])) s)), v])
                 # tl (segmentsStack
                        (snd (exec rf (ForNode node (cb @ [Newline, Throw (Readable m)])) s))),
               needsIndent := False\<rparr>)
       \<and> needsIndent (snd (exec rf (ForNode node (cb @ [Newline, Throw e])) s))
       \<and> mapTemplateContents parse_abc abc pending_indent_driver =
           Returned \<lparr>result_errors = [\<lparr>message = Str msg1, location = calculateLineOffsets abc ast_abc\<rparr>],
                     result = Some \<lparr>code = [0x20, 0x20, 0x78],
                                    mapping = MappingTree \<lparr>range_start = 0, range_end = 3\<rparr>
                                      (calculateLineOffsets abc ast_abc) [] (NodeOrigin ast_abc)\<rparr>\<rparr>"
proof -
  let ?c = "ForNode node (cb @ [Newline, Throw (Readable m)])"
  obtain s2 where run: "exec_list rf cb (enter_scope s) = (None, s2)"
    using assms(2) by (cases "exec_list rf cb (enter_scope s)") simp
  have ne: "nonempty (enter_scope s)" by (rule enter_scope_nonempty)
  from exec_stack_nonempty[OF ne, of rf cb] run have "nonempty s2" by simp
  then obtain t rest where st: "segmentsStack s2 = t # rest"
    unfolding nonempty_def by (cases "segmentsStack s2") auto
  let ?s3 = "s2\<lparr>offset := offset s2 + 1,
                 segmentsStack := (t @ [ [0x0A]]) # rest, needsIndent := True\<rparr>"
  have cb: "exec_list rf (cb @ [Newline, Throw (Readable m)]) (enter_scope s) =
          (Some (Readable m), ?s3)"
    by (simp add: exec_list_append run emit_newline_eq[OF st])
  have F: "exec rf ?c s =
      (None, ?s3\<lparr>errors := errors ?s3 @ [\<lparr>message = m, location = rf node\<rparr>], offset := offset s,
                 mappingsStack := tl (mappingsStack ?s3), segmentsStack := tl (segmentsStack ?s3)\<rparr>)"
    unfolding exec_ForNode_eq[OF assms(1)] cb by (rule scope_exit_caught) simp
  have tls: "tl (segmentsStack ?s3) = tl (segmentsStack s2)" using st by simp
  have a: "fst (exec rf ?c s) = None" unfolding F by simp
  have b: "needsIndent (snd (exec rf ?c s))" unfolding F by simp
  have c: "offset (snd (exec rf ?c s)) = offset s" unfolding F by simp
  have d: "suffix (segmentsStack s) (segmentsStack (snd (exec rf ?c s)))"
    unfolding F using callback_suffix(1)[OF assms(1), of rf cb] run st by simp
  have d1: "length (segmentsStack (snd (exec_list rf cb (enter_scope s)))) =
            length (segmentsStack (enter_scope s))" if "list_all readable cb"
    using assms(1) that by (rule callback_readable_depth)
  have d2: "segmentsStack (snd (exec rf ?c s)) = segmentsStack s"
    if "length (segmentsStack (snd (exec_list rf cb (enter_scope s)))) =
          length (segmentsStack (enter_scope s))"
    unfolding F using callback_same_depth(1)[OF assms(1) that] run st by simp
  from d assms(1) have "segmentsStack (snd (exec rf ?c s)) \<noteq> []"
    unfolding nonempty_def suffix_def by auto
  then have hdtl: "segmentsStack (snd (exec rf ?c s)) =
      hd (segmentsStack (snd (exec rf ?c s))) # tl (segmentsStack (snd (exec rf ?c s)))"
    by simp
  have e: "exec rf (Text v) (snd (exec rf ?c s)) =
           (None, (snd (exec rf ?c s))
              \<lparr>offset := offset s + length (indent (snd (exec rf ?c s))) + length v,
               segmentsStack :=
                 (hd (segmentsStack (snd (exec rf ?c s))) @ [indent (snd (exec rf ?c s)), v])
                 # tl (segmentsStack (snd (exec rf ?c s))),
               needsIndent := False\<rparr>)"
    using emit_text_eq[OF hdtl, of v] b c by simp
  have f: "mapTemplateContents parse_abc abc pending_indent_driver =
           Returned \<lparr>result_errors = [\<lparr>message = Str msg1, location = calculateLineOffsets abc ast_abc\<rparr>],
                     result = Some \<lparr>code = [0x20, 0x20, 0x78],
                                    mapping = MappingTree \<lparr>range_start = 0, range_end = 3\<rparr>
                                      (calculateLineOffsets abc ast_abc) [] (NodeOrigin ast_abc)\<rparr>\<rparr>"
    by (simp add: mapTemplateContents_def parse_abc_def pending_indent_driver_def
        emit_forNode_def captureMapping_def emit_text_def emit_newline_def emit_indent_def
        top_push_def initial_def Let_def local_array_def)
  have cb': "exec_list rf (cb @ [Newline, Throw e]) (enter_scope s) = (Some e, ?s3)"
    by (simp add: exec_list_append run emit_newline_eq[OF st])
  have g: "needsIndent (snd (exec rf (ForNode node (cb @ [Newline, Throw e])) s))"
    unfolding exec_ForNode_eq[OF assms(1)] cb' by simp
  from a b c d d1 d2 e f g show ?thesis by blast
qed

theorem pending_indent_survives_rollback_witness:
  "nonempty (snd (emit_indent initial))
   \<and> fst (exec_list (calculateLineOffsets abc) [] (enter_scope (snd (emit_indent initial)))) = None
   \<and> list_all readable []
   \<and> needsIndent (snd (exec (calculateLineOffsets abc) (ForNode ast_abc [Newline, Throw (Error msg1)])
                          (snd (emit_indent initial))))
   \<and> offset (snd (exec (calculateLineOffsets abc) (ForNode ast_abc [Newline, Throw (Error msg1)])
                          (snd (emit_indent initial)))) = 0
   \<and> segmentsStack (snd (exec (calculateLineOffsets abc) (ForNode ast_abc [Newline, Throw (Error msg1)])
                          (snd (emit_indent initial)))) = [ []]
   \<and> segmentsStack (snd (exec (calculateLineOffsets abc) (Text [0x78])
        (snd (exec (calculateLineOffsets abc) (ForNode ast_abc [Newline, Throw (Error msg1)])
                          (snd (emit_indent initial)))))) = [ [ [0x20, 0x20], [0x78]]]"
proof -
  have h: "nonempty (snd (emit_indent initial))"
    by (simp add: nonempty_def initial_def emit_indent_def)
  have c: "fst (exec_list (calculateLineOffsets abc) [] (enter_scope (snd (emit_indent initial)))) = None"
    by simp
  from pending_indent_survives_rollback[OF h c, of ast_abc "Str msg1" "[0x78]"] h c
  show ?thesis
    by (simp add: initial_def emit_indent_def emit_forNode_def captureMapping_def
        emit_text_def emit_newline_def top_push_def Let_def local_array_def)
qed

text \<open>How \<^verbatim>\<open>mapTemplateContents\<close> ends once the parser has returned a template node.\<close>

lemma mapTemplateContents_Inr:
  assumes "preprocess template = Inr ast"
  shows "mapTemplateContents preprocess template callback =
     (case exec_list (calculateLineOffsets template)
             (callback ast (calculateLineOffsets template)) initial of
        (Some e, s) \<Rightarrow> Threw e
      | (None, s) \<Rightarrow>
          if length (segmentsStack s) = 1 then
            Returned
              \<lparr>result_errors = errors s,
               result = Some
                 \<lparr>code = concat (hd (segmentsStack s)),
                  mapping = MappingTree
                    \<lparr>range_start = 0, range_end = length (concat (hd (segmentsStack s)))\<rparr>
                    (calculateLineOffsets template ast) (hd (mappingsStack s))
                    (NodeOrigin ast)\<rparr>\<rparr>
          else AssertionFailed)"
proof -
  let ?rf = "calculateLineOffsets template"
  obtain r s where run: "exec_list ?rf (callback ast ?rf) initial = (r, s)"
    by (cases "exec_list ?rf (callback ast ?rf) initial")
  from step_ok_depth(2)[OF exec_ok(2)[OF initial_nonempty, of ?rf "callback ast ?rf"]
      initial_nonempty] run
  have d: "length (mappingsStack s) = length (segmentsStack s)"
    by (simp add: initial_def)
  have "mappingsStack s = [hd (mappingsStack s)]" if "length (segmentsStack s) = 1"
    using d that by (cases "mappingsStack s") auto
  then show ?thesis
    using assms run
    by (cases r) (auto simp: mapTemplateContents_def Let_def split: list.splits)
qed

text \<open>
  A driver whose thrown values all have a readable message unwinds the stacks, and its
  run ends with the exception that it throws outside every scope, if any.
\<close>

lemma readable_run:
  assumes "list_all readable cs"
  shows "length (segmentsStack (snd (exec_list rf cs initial))) = 1"
    and "fst (exec_list rf cs initial) = thrown cs"
  using exec_readable(2)[OF initial_nonempty assms, of rf] by (simp_all add: initial_def)

section \<open>The scope stack after the driver\<close>

text \<open>
  Claim C9 describes what \<^verbatim>\<open>captureMapping\<close> is written to do, and the code misses one exit
  path. The driver \<^verbatim>\<open>forNode(ast, () => forNode(ast, () => { throw null }))\<close> returns
  normally and leaves both stacks at depth 2, so that the assertion
  \<^verbatim>\<open>segmentsStack.length === 1\<close> fails: the catch block of the inner call throws at
  \<^verbatim>\<open>error.message\<close> before either stack is shifted, and the catch block of the outer call
  records that exception and shifts once. (For a driver whose thrown values all have a
  readable message the stacks do unwind: \<open>readable_run\<close>.)
\<close>

theorem leaked_scope_fails_assertion:
  "parse_abc abc = Inr ast_abc
   \<and> fst (exec_list (calculateLineOffsets abc)
            (leaking_driver ast_abc (calculateLineOffsets abc)) initial) = None
   \<and> length (segmentsStack (snd (exec_list (calculateLineOffsets abc)
            (leaking_driver ast_abc (calculateLineOffsets abc)) initial))) = 2
   \<and> length (mappingsStack (snd (exec_list (calculateLineOffsets abc)
            (leaking_driver ast_abc (calculateLineOffsets abc)) initial))) = 2
   \<and> mapTemplateContents parse_abc abc leaking_driver = AssertionFailed"
  by (simp add: mapTemplateContents_def parse_abc_def leaking_driver_def nullish_def
      typeError_def emit_forNode_def captureMapping_def initial_def Let_def local_array_def)

section \<open>Failures of the driver\<close>

text \<open>
  Claim C3, amended. A failure thrown inside the callback of a \<^verbatim>\<open>forNode\<close> call with a message
  that can be read is caught by that call and becomes an entry of the errors list, and
  the call returns normally; so does every \<^verbatim>\<open>forNode\<close> call whose callback returns normally
  or throws only values with a readable message, and every \<^verbatim>\<open>identifier\<close> call. An exception
  that leaves the driver callback, thrown outside every \<^verbatim>\<open>forNode\<close> callback, is not
  caught: \<^verbatim>\<open>mapTemplateContents\<close> throws it. (Nothing is said here of a value thrown inside
  a \<^verbatim>\<open>forNode\<close> callback whose message cannot be read.)
\<close>

theorem failures_caught_by_scopes:
  "(nonempty s \<longrightarrow>
      (fst (exec_list rf cb (enter_scope s)) = None \<longrightarrow>
         fst (exec rf (ForNode node cb) s) = None)
      \<and> (fst (exec_list rf cb (enter_scope s)) = Some e \<and> read_message e = Inr m \<longrightarrow>
           fst (exec rf (ForNode node cb) s) = None
           \<and> errors (snd (exec rf (ForNode node cb) s)) =
               errors (snd (exec_list rf cb (enter_scope s))) @
                 [\<lparr>message = m, location = rf node\<rparr>])
      \<and> (list_all readable cb \<longrightarrow> fst (exec rf (ForNode node cb) s) = None)
      \<and> fst (exec rf (Identifier v hbsOffset hbsLength) s) = None)
   \<and> (preprocess template = Inr ast
        \<and> fst (exec_list (calculateLineOffsets template)
                 (callback ast (calculateLineOffsets template)) initial) = Some e'
        \<longrightarrow> mapTemplateContents preprocess template callback = Threw e')
   \<and> (preprocess template = Inr ast
        \<and> list_all readable (callback ast (calculateLineOffsets template))
        \<longrightarrow> (mapTemplateContents preprocess template callback = Threw e'
              \<longleftrightarrow> thrown (callback ast (calculateLineOffsets template)) = Some e'))"
proof (intro conjI impI)
  assume ne: "nonempty s"
  show "fst (exec rf (ForNode node cb) s) = None"
    if "fst (exec_list rf cb (enter_scope s)) = None"
  proof -
    from that obtain s2 where "exec_list rf cb (enter_scope s) = (None, s2)"
      by (cases "exec_list rf cb (enter_scope s)") simp
    then show ?thesis unfolding exec_ForNode_eq[OF ne] by simp
  qed
  show "fst (exec rf (ForNode node cb) s) = None" if "list_all readable cb"
    using exec_readable(1)[OF ne, of "ForNode node cb" rf] that by simp
  from emit_text_enter[of v s] obtain s2 where "emit_text v (enter_scope s) = (None, s2)"
    by (cases "emit_text v (enter_scope s)") simp
  then show "fst (exec rf (Identifier v hbsOffset hbsLength) s) = None"
    unfolding exec_Identifier_eq[OF ne] by simp
  assume a: "fst (exec_list rf cb (enter_scope s)) = Some e \<and> read_message e = Inr m"
  then obtain s2 where run: "exec_list rf cb (enter_scope s) = (Some e, s2)"
    by (cases "exec_list rf cb (enter_scope s)") simp
  from a have rm: "read_message e = Inr m" by simp
  show "fst (exec rf (ForNode node cb) s) = None"
    unfolding exec_ForNode_eq[OF ne] run scope_exit_caught[OF rm] by simp
  show "errors (snd (exec rf (ForNode node cb) s)) =
          errors (snd (exec_list rf cb (enter_scope s))) @ [\<lparr>message = m, location = rf node\<rparr>]"
    unfolding exec_ForNode_eq[OF ne] run scope_exit_caught[OF rm] by simp
next
  assume a: "preprocess template = Inr ast
        \<and> fst (exec_list (calculateLineOffsets template)
                 (callback ast (calculateLineOffsets template)) initial) = Some e'"
  then have p: "preprocess template = Inr ast" by simp
  from a show "mapTemplateContents preprocess template callback = Threw e'"
    unfolding mapTemplateContents_Inr[of preprocess template _ callback, OF p]
    by (cases "exec_list (calculateLineOffsets template)
                 (callback ast (calculateLineOffsets template)) initial") simp
next
  assume a: "preprocess template = Inr ast
        \<and> list_all readable (callback ast (calculateLineOffsets template))"
  then have p: "preprocess template = Inr ast"
    and rd: "list_all readable (callback ast (calculateLineOffsets template))" by simp_all
  note R = readable_run[OF rd, of "calculateLineOffsets template"]
  show "mapTemplateContents preprocess template callback = Threw e'
          \<longleftrightarrow> thrown (callback ast (calculateLineOffsets template)) = Some e'"
    unfolding mapTemplateContents_Inr[of preprocess template _ callback, OF p]
    using R
    by (cases "exec_list (calculateLineOffsets template)
                 (callback ast (calculateLineOffsets template)) initial";
        cases "thrown (callback ast (calculateLineOffsets template))") auto
qed

theorem failures_caught_by_scopes_witness:
  "nonempty initial
   \<and> fst (exec_list (calculateLineOffsets abc) [Text abc, Throw (Error msg2)] (enter_scope initial))
       = Some (Error msg2)
   \<and> read_message (Error msg2) = Inr (Str msg2)
   \<and> list_all readable [Text abc, Throw (Error msg2)]
   \<and> fst (exec (calculateLineOffsets abc) (ForNode ast_abc [Text abc, Throw (Error msg2)]) initial) = None
   \<and> errors (snd (exec (calculateLineOffsets abc) (ForNode ast_abc [Text abc, Throw (Error msg2)]) initial)) =
       [\<lparr>message = Str msg2, location = calculateLineOffsets abc ast_abc\<rparr>]
   \<and> fst (exec (calculateLineOffsets abc) (Identifier abc 0 None) initial) = None
   \<and> parse_abc abc = Inr ast_abc
   \<and> list_all readable (throwing_driver ast_abc (calculateLineOffsets abc))
   \<and> thrown (throwing_driver ast_abc (calculateLineOffsets abc)) = Some (Error msg1)
   \<and> mapTemplateContents parse_abc abc throwing_driver = Threw (Error msg1)"
proof -
  have h: "nonempty initial" by (simp add: nonempty_def initial_def)
  have c: "fst (exec_list (calculateLineOffsets abc) [Text abc, Throw (Error msg2)] (enter_scope initial))
       = Some (Error msg2)"
    by (simp add: emit_text_def top_push_def enter_scope_def initial_def)
  have m: "read_message (Error msg2) = Inr (Str msg2)" by simp
  have r: "list_all readable [Text abc, Throw (Error msg2)]" by simp
  have e: "errors (snd (exec_list (calculateLineOffsets abc) [Text abc, Throw (Error msg2)]
              (enter_scope initial))) = []"
    by (simp add: emit_text_def top_push_def enter_scope_def initial_def)
  have t: "parse_abc abc = Inr ast_abc
     \<and> list_all readable (throwing_driver ast_abc (calculateLineOffsets abc))
     \<and> thrown (throwing_driver ast_abc (calculateLineOffsets abc)) = Some (Error msg1)"
    by (simp add: parse_abc_def throwing_driver_def)
  from failures_caught_by_scopes[where s = initial and rf = "calculateLineOffsets abc"
      and node = ast_abc and cb = "[Text abc, Throw (Error msg2)]" and e = "Error msg2"
      and m = "Str msg2" and v = abc and hbsOffset = 0 and hbsLength = None] h c m
  have a: "fst (exec (calculateLineOffsets abc) (ForNode ast_abc [Text abc, Throw (Error msg2)]) initial) = None
    \<and> errors (snd (exec (calculateLineOffsets abc) (ForNode ast_abc [Text abc, Throw (Error msg2)]) initial)) =
       errors (snd (exec_list (calculateLineOffsets abc) [Text abc, Throw (Error msg2)]
              (enter_scope initial))) @ [\<lparr>message = Str msg2, location = calculateLineOffsets abc ast_abc\<rparr>]
    \<and> fst (exec (calculateLineOffsets abc) (Identifier abc 0 None) initial) = None"
    by blast
  from failures_caught_by_scopes[where preprocess = parse_abc and template = abc
      and callback = throwing_driver and e' = "Error msg1" and ast = ast_abc] t
  have b: "mapTemplateContents parse_abc abc throwing_driver = Threw (Error msg1)"
    by blast
  from a have a': "fst (exec (calculateLineOffsets abc) (ForNode ast_abc [Text abc, Throw (Error msg2)]) initial) = None
    \<and> errors (snd (exec (calculateLineOffsets abc) (ForNode ast_abc [Text abc, Throw (Error msg2)]) initial)) =
       [\<lparr>message = Str msg2, location = calculateLineOffsets abc ast_abc\<rparr>]
    \<and> fst (exec (calculateLineOffsets abc) (Identifier abc 0 None) initial) = None"
    unfolding e by simp
  from h c m r a' t b show ?thesis by blast
qed

text \<open>
  Claim C3 as stated fails: a driver that throws outside every \<^verbatim>\<open>forNode\<close> scope makes
  \<^verbatim>\<open>mapTemplateContents\<close> throw; no errors list is returned.
\<close>

theorem top_level_throw_escapes:
  "parse_abc abc = Inr ast_abc
   \<and> mapTemplateContents parse_abc abc throwing_driver = Threw (Error msg1)"
  by (simp add: mapTemplateContents_def parse_abc_def throwing_driver_def)

section \<open>Absence of the result\<close>

text \<open>
  Claim C4, amended. When the parser throws an error whose message can be read,
  \<^verbatim>\<open>mapTemplateContents\<close> returns exactly one error with that message and the range of the
  whole input, and no result. Whenever it returns, the result is absent if and only if the
  parser threw. When the parser succeeds and the driver callback returns normally having
  thrown only values with a readable message, or returns normally with the scope stack
  unwound, it returns with the result present; when the parser succeeds and an exception
  leaves the driver callback it does not return a value at all.
\<close>

theorem result_absent_iff_parse_failure:
  "(preprocess template = Inl error \<and> read_message error = Inr m \<longrightarrow>
      mapTemplateContents preprocess template callback =
        Returned \<lparr>result_errors =
                    [\<lparr>message = m,
                      location = \<lparr>range_start = Num 0,
                                  range_end = Num (int (length template))\<rparr>\<rparr>],
                  result = None\<rparr>)
   \<and> (mapTemplateContents preprocess template callback = Returned r \<longrightarrow>
        (result r = None \<longleftrightarrow> (\<exists>err. preprocess template = Inl err)))
   \<and> (preprocess template = Inr ast
        \<and> list_all readable (callback ast (calculateLineOffsets template))
        \<and> thrown (callback ast (calculateLineOffsets template)) = None \<longrightarrow>
        (\<exists>errs c. mapTemplateContents preprocess template callback =
                    Returned \<lparr>result_errors = errs, result = Some c\<rparr>))
   \<and> (preprocess template = Inr ast
        \<and> fst (exec_list (calculateLineOffsets template)
                 (callback ast (calculateLineOffsets template)) initial) = None
        \<and> length (segmentsStack (snd (exec_list (calculateLineOffsets template)
                 (callback ast (calculateLineOffsets template)) initial))) = 1 \<longrightarrow>
        (\<exists>errs c. mapTemplateContents preprocess template callback =
                    Returned \<lparr>result_errors = errs, result = Some c\<rparr>))
   \<and> (preprocess template = Inr ast
        \<and> fst (exec_list (calculateLineOffsets template)
                 (callback ast (calculateLineOffsets template)) initial) = Some e \<longrightarrow>
        mapTemplateContents preprocess template callback = Threw e)"
proof (intro conjI impI)
  assume "preprocess template = Inl error \<and> read_message error = Inr m"
  then show "mapTemplateContents preprocess template callback =
        Returned \<lparr>result_errors =
                    [\<lparr>message = m,
                      location = \<lparr>range_start = Num 0,
                                  range_end = Num (int (length template))\<rparr>\<rparr>],
                  result = None\<rparr>"
    by (simp add: mapTemplateContents_def)
next
  assume ret: "mapTemplateContents preprocess template callback = Returned r"
  show "result r = None \<longleftrightarrow> (\<exists>err. preprocess template = Inl err)"
  proof (cases "preprocess template")
    case (Inl err)
    with ret show ?thesis
      by (cases "read_message err") (auto simp: mapTemplateContents_def)
  next
    case (Inr a)
    from ret show ?thesis
      unfolding mapTemplateContents_Inr[of preprocess template _ callback, OF Inr] using Inr
      by (cases "exec_list (calculateLineOffsets template)
                 (callback a (calculateLineOffsets template)) initial")
         (auto split: option.splits if_splits)
  qed
next
  assume a: "preprocess template = Inr ast
        \<and> list_all readable (callback ast (calculateLineOffsets template))
        \<and> thrown (callback ast (calculateLineOffsets template)) = None"
  then have p: "preprocess template = Inr ast"
    and rd: "list_all readable (callback ast (calculateLineOffsets template))" by simp_all
  from readable_run[OF rd, of "calculateLineOffsets template"] a
  show "\<exists>errs c. mapTemplateContents preprocess template callback =
                    Returned \<lparr>result_errors = errs, result = Some c\<rparr>"
    unfolding mapTemplateContents_Inr[of preprocess template _ callback, OF p]
    by (cases "exec_list (calculateLineOffsets template)
                 (callback ast (calculateLineOffsets template)) initial") simp
next
  assume a: "preprocess template = Inr ast
        \<and> fst (exec_list (calculateLineOffsets template)
                 (callback ast (calculateLineOffsets template)) initial) = None
        \<and> length (segmentsStack (snd (exec_list (calculateLineOffsets template)
                 (callback ast (calculateLineOffsets template)) initial))) = 1"
  then have p: "preprocess template = Inr ast" by simp
  from a show "\<exists>errs c. mapTemplateContents preprocess template callback =
                    Returned \<lparr>result_errors = errs, result = Some c\<rparr>"
    unfolding mapTemplateContents_Inr[of preprocess template _ callback, OF p]
    by (cases "exec_list (calculateLineOffsets template)
                 (callback ast (calculateLineOffsets template)) initial") simp
next
  assume a: "preprocess template = Inr ast
        \<and> fst (exec_list (calculateLineOffsets template)
                 (callback ast (calculateLineOffsets template)) initial) = Some e"
  then have p: "preprocess template = Inr ast" by simp
  from a show "mapTemplateContents preprocess template callback = Threw e"
    unfolding mapTemplateContents_Inr[of preprocess template _ callback, OF p]
    by (cases "exec_list (calculateLineOffsets template)
                 (callback ast (calculateLineOffsets template)) initial") simp
qed

theorem result_absent_iff_parse_failure_witness:
  "parse_unclosed if_block = Inl (Error (js ''unclosed block''))
   \<and> read_message (Error (js ''unclosed block'')) = Inr (Str (js ''unclosed block''))
   \<and> mapTemplateContents parse_unclosed if_block whole_driver =
       Returned \<lparr>result_errors =
                   [\<lparr>message = Str (js ''unclosed block''),
                     location = \<lparr>range_start = Num 0, range_end = Num 7\<rparr>\<rparr>],
                 result = None\<rparr>
   \<and> parse_abc abc = Inr ast_abc
   \<and> list_all readable (whole_driver ast_abc (calculateLineOffsets abc))
   \<and> thrown (whole_driver ast_abc (calculateLineOffsets abc)) = None
   \<and> (\<exists>errs c. mapTemplateContents parse_abc abc whole_driver =
                  Returned \<lparr>result_errors = errs, result = Some c\<rparr>)
   \<and> fst (exec_list (calculateLineOffsets abc)
            (late_throwing_driver ast_abc (calculateLineOffsets abc)) initial) = Some (Error msg1)
   \<and> mapTemplateContents parse_abc abc late_throwing_driver = Threw (Error msg1)"
proof -
  have p: "parse_unclosed if_block = Inl (Error (js ''unclosed block''))
     \<and> read_message (Error (js ''unclosed block'')) = Inr (Str (js ''unclosed block''))"
    by (simp add: parse_unclosed_def)
  have q: "parse_abc abc = Inr ast_abc" by (simp add: parse_abc_def)
  have w: "list_all readable (whole_driver ast_abc (calculateLineOffsets abc))
     \<and> thrown (whole_driver ast_abc (calculateLineOffsets abc)) = None"
    by (simp add: whole_driver_def)
  have l: "fst (exec_list (calculateLineOffsets abc)
            (late_throwing_driver ast_abc (calculateLineOffsets abc)) initial) = Some (Error msg1)"
    by (simp add: late_throwing_driver_def emit_forNode_def captureMapping_def emit_text_def
        top_push_def initial_def Let_def local_array_def abc_def)
  from result_absent_iff_parse_failure[where preprocess = parse_unclosed and template = if_block
      and callback = whole_driver and error = "Error (js ''unclosed block'')"
      and m = "Str (js ''unclosed block'')"] p
  have a: "mapTemplateContents parse_unclosed if_block whole_driver =
       Returned \<lparr>result_errors =
                   [\<lparr>message = Str (js ''unclosed block''),
                     location = \<lparr>range_start = Num 0, range_end = Num 7\<rparr>\<rparr>],
                 result = None\<rparr>"
    by (simp add: if_block_def)
  from result_absent_iff_parse_failure[where preprocess = parse_abc and template = abc
      and callback = whole_driver and ast = ast_abc] q w
  have b: "\<exists>errs c. mapTemplateContents parse_abc abc whole_driver =
                  Returned \<lparr>result_errors = errs, result = Some c\<rparr>"
    by blast
  from result_absent_iff_parse_failure[where preprocess = parse_abc and template = abc
      and callback = late_throwing_driver and ast = ast_abc and e = "Error msg1"] q l
  have c: "mapTemplateContents parse_abc abc late_throwing_driver = Threw (Error msg1)"
    by blast
  from p a q w b l c show ?thesis by blast
qed

text \<open>
  Claim C4 as stated fails: with a parser that succeeds and a driver that throws after a
  complete scope, no value is returned, so the result is not present.
\<close>

theorem no_result_when_driver_throws:
  "parse_abc abc = Inr ast_abc
   \<and> mapTemplateContents parse_abc abc late_throwing_driver = Threw (Error msg1)
   \<and> mapTemplateContents parse_abc abc late_throwing_driver \<noteq>
       Returned \<lparr>result_errors = [],
                 result = Some \<lparr>code = abc,
                   mapping = MappingTree \<lparr>range_start = 0, range_end = 3\<rparr>
                     (calculateLineOffsets abc ast_abc)
                     [MappingTree \<lparr>range_start = 0, range_end = 3\<rparr>
                        (calculateLineOffsets abc ast_abc) [] (NodeOrigin ast_abc)]
                     (NodeOrigin ast_abc)\<rparr>\<rparr>"
  by (simp add: mapTemplateContents_def parse_abc_def late_throwing_driver_def
      emit_forNode_def captureMapping_def emit_text_def top_push_def initial_def Let_def abc_def
      local_array_def)

lemma except_indent_eq:
  "except_indent s = except_indent t \<longleftrightarrow>
     segmentsStack s = segmentsStack t \<and> mappingsStack s = mappingsStack t \<and>
     offset s = offset t \<and> needsIndent s = needsIndent t \<and> errors s = errors t"
  by (cases s; cases t) (auto simp: except_indent_def)

lemma except_indent_nonempty:
  "except_indent s = except_indent t \<Longrightarrow> nonempty s \<Longrightarrow> nonempty t"
  by (simp add: except_indent_eq nonempty_def)

lemma except_indent_enter:
  "except_indent s = except_indent t \<Longrightarrow> except_indent (enter_scope s) = except_indent (enter_scope t)"
  by (simp add: except_indent_eq)

lemma scope_exit_except:
  assumes "except_indent s = except_indent t" "except_indent s2 = except_indent t2"
  shows "fst (scope_exit h src s (r, s2)) = fst (scope_exit h src t (r, t2))"
    and "except_indent (snd (scope_exit h src s (r, s2))) =
         except_indent (snd (scope_exit h src t (r, t2)))"
proof -
  show "fst (scope_exit h src s (r, s2)) = fst (scope_exit h src t (r, t2))"
  proof (cases r)
    case None
    then show ?thesis by (simp add: scope_exit_def)
  next
    case (Some e)
    then show ?thesis by (cases "read_message e") (simp_all add: scope_exit_def)
  qed
  show "except_indent (snd (scope_exit h src s (r, s2))) =
        except_indent (snd (scope_exit h src t (r, t2)))"
  proof (cases r)
    case None
    with assms show ?thesis by (simp add: except_indent_eq scope_exit_def)
  next
    case (Some e)
    with assms show ?thesis
      by (cases "read_message e") (simp_all add: except_indent_eq scope_exit_def)
  qed
qed

lemma emit_text_except:
  assumes "nonempty s" "\<not> needsIndent s" "except_indent s = except_indent t"
  shows "fst (emit_text v s) = fst (emit_text v t)
       \<and> except_indent (snd (emit_text v s)) = except_indent (snd (emit_text v t))
       \<and> \<not> needsIndent (snd (emit_text v s))"
proof -
  from assms(1) obtain g rest where st: "segmentsStack s = g # rest"
    unfolding nonempty_def by (cases "segmentsStack s") auto
  with assms(3) have tt: "segmentsStack t = g # rest" by (simp add: except_indent_eq)
  from assms(2,3) have nt: "\<not> needsIndent t" by (simp add: except_indent_eq)
  show ?thesis
    using assms(2,3) nt by (simp add: emit_text_eq[OF st] emit_text_eq[OF tt] except_indent_eq)
qed

lemma exec_except:
  "nonempty s \<Longrightarrow> \<not> needsIndent s \<Longrightarrow> \<not> has_newline c \<Longrightarrow>
     (\<forall>t. except_indent s = except_indent t \<longrightarrow>
        fst (exec rf c s) = fst (exec rf c t)
        \<and> except_indent (snd (exec rf c s)) = except_indent (snd (exec rf c t)))
     \<and> \<not> needsIndent (snd (exec rf c s))"
  "nonempty s \<Longrightarrow> \<not> needsIndent s \<Longrightarrow> \<not> list_ex has_newline cs \<Longrightarrow>
     (\<forall>t. except_indent s = except_indent t \<longrightarrow>
        fst (exec_list rf cs s) = fst (exec_list rf cs t)
        \<and> except_indent (snd (exec_list rf cs s)) = except_indent (snd (exec_list rf cs t)))
     \<and> \<not> needsIndent (snd (exec_list rf cs s))"
proof (induction rf c s and rf cs s rule: exec_exec_list.induct)
  case (1 rf s)
  then show ?case by (simp add: emit_indent_def except_indent_eq)
next
  case (2 rf s)
  then show ?case by (simp add: emit_dedent_def except_indent_eq)
next
  case (3 rf s)
  then show ?case by simp
next
  case (4 rf v s)
  then show ?case using emit_text_except by simp
next
  case (5 rf v hbsOffset hbsLength s)
  have ne: "nonempty (enter_scope s)" by (rule enter_scope_nonempty)
  from 5(2) have ni: "\<not> needsIndent (enter_scope s)" by simp
  show ?case
  proof (intro conjI allI impI)
    fix t assume rel: "except_indent s = except_indent t"
    then have net: "nonempty t" using 5(1) by (rule except_indent_nonempty)
    note T = emit_text_except[OF ne ni except_indent_enter[OF rel], of v]
    obtain r s2 where rs: "emit_text v (enter_scope s) = (r, s2)"
      by (cases "emit_text v (enter_scope s)")
    obtain r' t2 where rt: "emit_text v (enter_scope t) = (r', t2)"
      by (cases "emit_text v (enter_scope t)")
    from T rs rt have rr: "r' = r" and e2: "except_indent s2 = except_indent t2" by simp_all
    show "fst (exec rf (Identifier v hbsOffset hbsLength) s) =
          fst (exec rf (Identifier v hbsOffset hbsLength) t)"
      unfolding exec_Identifier_eq[OF 5(1)] exec_Identifier_eq[OF net] rs rt rr
      by (rule scope_exit_except(1)[OF rel e2])
    show "except_indent (snd (exec rf (Identifier v hbsOffset hbsLength) s)) =
          except_indent (snd (exec rf (Identifier v hbsOffset hbsLength) t))"
      unfolding exec_Identifier_eq[OF 5(1)] exec_Identifier_eq[OF net] rs rt rr
      by (rule scope_exit_except(2)[OF rel e2])
  next
    obtain r s2 where rs: "emit_text v (enter_scope s) = (r, s2)"
      by (cases "emit_text v (enter_scope s)")
    from emit_text_except[OF ne ni refl, of v] rs have "\<not> needsIndent s2" by simp
    then show "\<not> needsIndent (snd (exec rf (Identifier v hbsOffset hbsLength) s))"
      unfolding exec_Identifier_eq[OF 5(1)] rs by simp
  qed
next
  case (6 rf node cb s)
  have ne: "nonempty (enter_scope s)" by (rule enter_scope_nonempty)
  from 6(3) have ni: "\<not> needsIndent (enter_scope s)" by simp
  from 6(4) have nn: "\<not> list_ex has_newline cb" by simp
  note IH = 6(1)[OF ne ni nn]
  show ?case
  proof (intro conjI allI impI)
    fix t assume rel: "except_indent s = except_indent t"
    then have net: "nonempty t" using 6(2) by (rule except_indent_nonempty)
    obtain r s2 where rs: "exec_list rf cb (enter_scope s) = (r, s2)"
      by (cases "exec_list rf cb (enter_scope s)")
    obtain r' t2 where rt: "exec_list rf cb (enter_scope t) = (r', t2)"
      by (cases "exec_list rf cb (enter_scope t)")
    from IH except_indent_enter[OF rel] rs rt
    have rr: "r' = r" and e2: "except_indent s2 = except_indent t2" by auto
    show "fst (exec rf (ForNode node cb) s) = fst (exec rf (ForNode node cb) t)"
      unfolding exec_ForNode_eq[OF 6(2)] exec_ForNode_eq[OF net] rs rt rr
      by (rule scope_exit_except(1)[OF rel e2])
    show "except_indent (snd (exec rf (ForNode node cb) s)) =
          except_indent (snd (exec rf (ForNode node cb) t))"
      unfolding exec_ForNode_eq[OF 6(2)] exec_ForNode_eq[OF net] rs rt rr
      by (rule scope_exit_except(2)[OF rel e2])
  next
    obtain r s2 where rs: "exec_list rf cb (enter_scope s) = (r, s2)"
      by (cases "exec_list rf cb (enter_scope s)")
    from IH rs have "\<not> needsIndent s2" by simp
    then show "\<not> needsIndent (snd (exec rf (ForNode node cb) s))"
      unfolding exec_ForNode_eq[OF 6(2)] rs by simp
  qed
next
  case (7 rf e s)
  then show ?case by simp
next
  case (8 rf body handler s)
  from 8(5) have nb: "\<not> list_ex has_newline body" and nh: "\<not> list_ex has_newline handler"
    by simp_all
  note H = 8(1)[OF 8(3) 8(4) nb]
  obtain r s1 where run: "exec_list rf body s = (r, s1)" by (cases "exec_list rf body s")
  from exec_ok(2)[OF 8(3), of rf body] run have ne1: "nonempty s1"
    using step_ok_nonempty by fastforce
  from H run have ni1: "\<not> needsIndent s1" by simp
  show ?case
  proof (cases r)
    case None
    show ?thesis
    proof (intro conjI allI impI)
      fix t assume rel: "except_indent s = except_indent t"
      obtain r' t1 where rt: "exec_list rf body t = (r', t1)" by (cases "exec_list rf body t")
      from H rel run rt have "r' = r" "except_indent s1 = except_indent t1" by auto
      with run rt None show
        "fst (exec rf (TryCatch body handler) s) = fst (exec rf (TryCatch body handler) t)"
        "except_indent (snd (exec rf (TryCatch body handler) s)) =
         except_indent (snd (exec rf (TryCatch body handler) t))"
        by simp_all
    next
      from run None ni1 show "\<not> needsIndent (snd (exec rf (TryCatch body handler) s))" by simp
    qed
  next
    case (Some e)
    note IH = 8(2)[OF run[symmetric] Some ne1 ni1 nh]
    show ?thesis
    proof (intro conjI allI impI)
      fix t assume rel: "except_indent s = except_indent t"
      obtain r' t1 where rt: "exec_list rf body t = (r', t1)" by (cases "exec_list rf body t")
      from H rel run rt have "r' = r" "except_indent s1 = except_indent t1" by auto
      with IH run rt Some show
        "fst (exec rf (TryCatch body handler) s) = fst (exec rf (TryCatch body handler) t)"
        "except_indent (snd (exec rf (TryCatch body handler) s)) =
         except_indent (snd (exec rf (TryCatch body handler) t))"
        by simp_all
    next
      from run Some IH show "\<not> needsIndent (snd (exec rf (TryCatch body handler) s))" by simp
    qed
  qed
next
  case (9 rf s)
  then show ?case by simp
next
  case (10 rf c cs s)
  from 10(5) have nc: "\<not> has_newline c" and ncs: "\<not> list_ex has_newline cs" by simp_all
  note H = 10(1)[OF 10(3) 10(4) nc]
  obtain r s1 where run: "exec rf c s = (r, s1)" by (cases "exec rf c s")
  from exec_ok(1)[OF 10(3), of rf c] run have ne1: "nonempty s1"
    using step_ok_nonempty by fastforce
  from H run have ni1: "\<not> needsIndent s1" by simp
  show ?case
  proof (cases r)
    case (Some e)
    show ?thesis
    proof (intro conjI allI impI)
      fix t assume rel: "except_indent s = except_indent t"
      obtain r' t1 where rt: "exec rf c t = (r', t1)" by (cases "exec rf c t")
      from H rel run rt have "r' = r" "except_indent s1 = except_indent t1" by auto
      with run rt Some show "fst (exec_list rf (c # cs) s) = fst (exec_list rf (c # cs) t)"
        "except_indent (snd (exec_list rf (c # cs) s)) = except_indent (snd (exec_list rf (c # cs) t))"
        by simp_all
    next
      from run Some ni1 show "\<not> needsIndent (snd (exec_list rf (c # cs) s))" by simp
    qed
  next
    case None
    note IH = 10(2)[OF run[symmetric] None ne1 ni1 ncs]
    show ?thesis
    proof (intro conjI allI impI)
      fix t assume rel: "except_indent s = except_indent t"
      obtain r' t1 where rt: "exec rf c t = (r', t1)" by (cases "exec rf c t")
      from H rel run rt have "r' = r" "except_indent s1 = except_indent t1" by auto
      with IH run rt None show "fst (exec_list rf (c # cs) s) = fst (exec_list rf (c # cs) t)"
        "except_indent (snd (exec_list rf (c # cs) s)) = except_indent (snd (exec_list rf (c # cs) t))"
        by simp_all
    next
      from run None IH show "\<not> needsIndent (snd (exec_list rf (c # cs) s))" by simp
    qed
  qed
qed

section \<open>Indentation\<close>

text \<open>
  Claim C8, amended. \<^verbatim>\<open>indent()\<close> appends one unit of two spaces to the indentation prefix
  and \<^verbatim>\<open>dedent()\<close> removes its first two characters (nothing when it is empty); neither
  emits text. When no indentation is pending at the call (\<^verbatim>\<open>needsIndent\<close> is false), the
  calls that follow up to the next \<^verbatim>\<open>newline()\<close> complete as they would have without the
  call and leave the same segments, mappings, offset, flag and errors. When indentation is
  pending (\<^verbatim>\<open>newline()\<close> was called and \<^verbatim>\<open>text\<close> not yet), the next \<^verbatim>\<open>text(v)\<close> emits the
  prefix as changed by the call.
\<close>

theorem indent_takes_effect_after_newline:
  "exec rf Indent s = (None, s\<lparr>indent := indent s @ [0x20, 0x20]\<rparr>)
   \<and> exec rf Dedent s = (None, s\<lparr>indent := drop 2 (indent s)\<rparr>)
   \<and> (nonempty s \<and> \<not> needsIndent s \<and> \<not> list_ex has_newline cs \<longrightarrow>
        fst (exec_list rf (Indent # cs) s) = fst (exec_list rf cs s)
        \<and> except_indent (snd (exec_list rf (Indent # cs) s)) = except_indent (snd (exec_list rf cs s))
        \<and> fst (exec_list rf (Dedent # cs) s) = fst (exec_list rf cs s)
        \<and> except_indent (snd (exec_list rf (Dedent # cs) s)) = except_indent (snd (exec_list rf cs s)))
   \<and> (segmentsStack s = g # rest \<and> needsIndent s \<longrightarrow>
        segmentsStack (snd (exec_list rf [Indent, Text v] s)) =
          (g @ [indent s @ [0x20, 0x20], v]) # rest
        \<and> segmentsStack (snd (exec_list rf [Text v] s)) = (g @ [indent s, v]) # rest)"
proof (intro conjI impI)
  show "exec rf Indent s = (None, s\<lparr>indent := indent s @ [0x20, 0x20]\<rparr>)"
    by (simp add: emit_indent_def)
  show "exec rf Dedent s = (None, s\<lparr>indent := drop 2 (indent s)\<rparr>)"
    by (simp add: emit_dedent_def)
next
  assume a: "nonempty s \<and> \<not> needsIndent s \<and> \<not> list_ex has_newline cs"
  then have ne: "nonempty s" and ni: "\<not> needsIndent s" and nn: "\<not> list_ex has_newline cs"
    by simp_all
  note E = exec_except(2)[OF ne ni nn, of rf]
  have i: "except_indent s = except_indent (s\<lparr>indent := indent s @ [0x20, 0x20]\<rparr>)"
    by (simp add: except_indent_eq)
  have d: "except_indent s = except_indent (s\<lparr>indent := drop 2 (indent s)\<rparr>)"
    by (simp add: except_indent_eq)
  from E i show "fst (exec_list rf (Indent # cs) s) = fst (exec_list rf cs s)"
    by (simp add: emit_indent_def)
  from E i show "except_indent (snd (exec_list rf (Indent # cs) s)) =
      except_indent (snd (exec_list rf cs s))"
    by (simp add: emit_indent_def)
  from E d show "fst (exec_list rf (Dedent # cs) s) = fst (exec_list rf cs s)"
    by (simp add: emit_dedent_def)
  from E d show "except_indent (snd (exec_list rf (Dedent # cs) s)) =
      except_indent (snd (exec_list rf cs s))"
    by (simp add: emit_dedent_def)
next
  assume a: "segmentsStack s = g # rest \<and> needsIndent s"
  then show "segmentsStack (snd (exec_list rf [Indent, Text v] s)) =
          (g @ [indent s @ [0x20, 0x20], v]) # rest"
    by (simp add: emit_indent_def emit_text_eq)
  from a show "segmentsStack (snd (exec_list rf [Text v] s)) = (g @ [indent s, v]) # rest"
    by (simp add: emit_text_eq)
qed

theorem indent_takes_effect_after_newline_witness:
  "nonempty initial \<and> \<not> needsIndent initial \<and> \<not> list_ex has_newline [Text abc]
   \<and> except_indent (snd (exec_list (calculateLineOffsets abc) [Indent, Text abc] initial)) =
       except_indent (snd (exec_list (calculateLineOffsets abc) [Text abc] initial))
   \<and> segmentsStack (snd (exec_list (calculateLineOffsets abc) [Indent, Text abc] initial)) = [ [abc]]
   \<and> segmentsStack (snd (emit_newline initial)) = [ [0x0A]] # [] \<and> needsIndent (snd (emit_newline initial))
   \<and> segmentsStack (snd (exec_list (calculateLineOffsets abc) [Indent, Text abc] (snd (emit_newline initial)))) =
       [ [ [0x0A], [0x20, 0x20], abc]]
   \<and> segmentsStack (snd (exec_list (calculateLineOffsets abc) [Text abc] (snd (emit_newline initial)))) =
       [ [ [0x0A], [], abc]]"
proof -
  have h: "nonempty initial \<and> \<not> needsIndent initial \<and> \<not> list_ex has_newline [Text abc]"
    by (simp add: nonempty_def initial_def)
  have p: "segmentsStack (snd (emit_newline initial)) = [ [0x0A]] # [] \<and> needsIndent (snd (emit_newline initial))"
    by (simp add: emit_newline_def top_push_def initial_def)
  have i: "indent (snd (emit_newline initial)) = []"
    by (simp add: emit_newline_def top_push_def initial_def)
  from indent_takes_effect_after_newline[where s = initial and cs = "[Text abc]"
      and rf = "calculateLineOffsets abc"] h
  have a: "except_indent (snd (exec_list (calculateLineOffsets abc) [Indent, Text abc] initial)) =
       except_indent (snd (exec_list (calculateLineOffsets abc) [Text abc] initial))"
    by blast
  have b: "segmentsStack (snd (exec_list (calculateLineOffsets abc) [Indent, Text abc] initial)) = [ [abc]]"
    by (simp add: emit_indent_def emit_text_def top_push_def initial_def)
  from indent_takes_effect_after_newline[where s = "snd (emit_newline initial)" and g = "[ [0x0A]]"
      and rest = "[]" and rf = "calculateLineOffsets abc" and v = abc] p
  have "segmentsStack (snd (exec_list (calculateLineOffsets abc) [Indent, Text abc] (snd (emit_newline initial)))) =
       ([ [0x0A]] @ [indent (snd (emit_newline initial)) @ [0x20, 0x20], abc]) # []
   \<and> segmentsStack (snd (exec_list (calculateLineOffsets abc) [Text abc] (snd (emit_newline initial)))) =
       ([ [0x0A]] @ [indent (snd (emit_newline initial)), abc]) # []"
    by blast
  then have c: "segmentsStack (snd (exec_list (calculateLineOffsets abc) [Indent, Text abc] (snd (emit_newline initial)))) =
       [ [ [0x0A], [0x20, 0x20], abc]]
   \<and> segmentsStack (snd (exec_list (calculateLineOffsets abc) [Text abc] (snd (emit_newline initial)))) =
       [ [ [0x0A], [], abc]]"
    unfolding i by simp
  from h a b p c show ?thesis by blast
qed

text \<open>
  Claim C8 as stated fails: an \<^verbatim>\<open>indent()\<close> between \<^verbatim>\<open>newline()\<close> and the next \<^verbatim>\<open>text\<close>
  changes what that \<^verbatim>\<open>text\<close> call, which comes before the next \<^verbatim>\<open>newline()\<close>, emits.
\<close>

theorem indent_changes_pending_line:
  "mapTemplateContents parse_abc abc indent_after_newline_driver =
     Returned \<lparr>result_errors = [],
               result = Some \<lparr>code = [0x0A, 0x20, 0x20, 0x61],
                              mapping = MappingTree \<lparr>range_start = 0, range_end = 4\<rparr>
                                (calculateLineOffsets abc ast_abc) [] (NodeOrigin ast_abc)\<rparr>\<rparr>
   \<and> mapTemplateContents parse_abc abc newline_driver =
     Returned \<lparr>result_errors = [],
               result = Some \<lparr>code = [0x0A, 0x61],
                              mapping = MappingTree \<lparr>range_start = 0, range_end = 2\<rparr>
                                (calculateLineOffsets abc ast_abc) [] (NodeOrigin ast_abc)\<rparr>\<rparr>"
  by (simp add: mapTemplateContents_def parse_abc_def indent_after_newline_driver_def
      newline_driver_def emit_text_def emit_newline_def emit_indent_def
      top_push_def initial_def Let_def local_array_def)

lemma chain_bounds:
  "chain lo cs hi \<Longrightarrow>
   list_all (\<lambda>c. lo \<le> range_start (outputRange c) \<and> range_end (outputRange c) \<le> hi) cs"
proof (induction cs arbitrary: lo)
  case Nil
  then show ?case by simp
next
  case (Cons m ms)
  from Cons.prems have a: "lo \<le> range_start (outputRange m)"
    and b: "range_start (outputRange m) < range_end (outputRange m)"
    and c: "chain (range_end (outputRange m)) ms hi" by simp_all
  from c have d: "range_end (outputRange m) \<le> hi" by (rule chain_le)
  from Cons.IH[OF c] a b
  have "list_all (\<lambda>c. lo \<le> range_start (outputRange c) \<and> range_end (outputRange c) \<le> hi) ms"
    by (auto simp: list_all_iff)
  with a d show ?case by simp
qed

lemma chain_sorted: "chain lo cs hi \<Longrightarrow> sorted_wrt before cs"
proof (induction cs arbitrary: lo)
  case Nil
  then show ?case by simp
next
  case (Cons m ms)
  from Cons.prems have b: "range_start (outputRange m) < range_end (outputRange m)"
    and c: "chain (range_end (outputRange m)) ms hi" by simp_all
  from chain_bounds[OF c] b have "\<forall>x\<in>set ms. before m x"
    by (auto simp: list_all_iff before_def)
  with Cons.IH[OF c] show ?case by simp
qed

lemma output_wf_contained: "output_wf m \<Longrightarrow> output_contained m"
proof (induction m)
  case (MappingTree out src cs org)
  from MappingTree.prems have ch: "chain (range_start out) cs (range_end out)"
    and wf: "list_all output_wf cs" by simp_all
  from chain_bounds[OF ch] have "list_all (\<lambda>c. within (outputRange c) out) cs"
    by (simp add: within_def)
  moreover from chain_sorted[OF ch] have "sorted_wrt before cs" .
  moreover from wf MappingTree.IH have "list_all output_contained cs"
    by (auto simp: list_all_iff)
  ultimately show ?case by simp
qed

text \<open>
  A run of the driver that ends with the stacks at depth 1 has left one list of segments
  and one list of mappings, which are accounted for.
\<close>

lemma run_initial:
  assumes "length (segmentsStack (snd (exec_list rf cs initial))) = 1"
  obtains segs maps where
    "segmentsStack (snd (exec_list rf cs initial)) = [segs]"
    "mappingsStack (snd (exec_list rf cs initial)) = [maps]"
    "offset (snd (exec_list rf cs initial)) = length (concat segs)"
    "chain 0 maps (length (concat segs))" "list_all output_wf maps"
proof -
  have d: "length (segmentsStack (snd (exec_list rf cs initial))) = length (segmentsStack initial)"
    using assms by (simp add: initial_def)
  from step_ok_same_depth[OF exec_ok(2)[OF initial_nonempty, of rf cs] initial_nonempty d]
  obtain segs maps where
    "segmentsStack (snd (exec_list rf cs initial)) = [segs]"
    "mappingsStack (snd (exec_list rf cs initial)) = [maps]"
    "offset (snd (exec_list rf cs initial)) = length (concat segs)"
    "chain 0 maps (offset (snd (exec_list rf cs initial)))" "list_all output_wf maps"
    by (auto simp: initial_def)
  then show ?thesis using that by simp
qed

text \<open>What a rewrite that returns after a successful parse has returned.\<close>

lemma returned_run:
  assumes "preprocess template = Inr ast"
    and "mapTemplateContents preprocess template callback = Returned r"
  shows "fst (exec_list (calculateLineOffsets template)
                (callback ast (calculateLineOffsets template)) initial) = None"
    and "length (segmentsStack (snd (exec_list (calculateLineOffsets template)
                (callback ast (calculateLineOffsets template)) initial))) = 1"
    and "r = \<lparr>result_errors = errors (snd (exec_list (calculateLineOffsets template)
                (callback ast (calculateLineOffsets template)) initial)),
              result = Some
                \<lparr>code = concat (hd (segmentsStack (snd (exec_list (calculateLineOffsets template)
                          (callback ast (calculateLineOffsets template)) initial)))),
                 mapping = MappingTree
                   \<lparr>range_start = 0,
                    range_end = length (concat (hd (segmentsStack
                      (snd (exec_list (calculateLineOffsets template)
                          (callback ast (calculateLineOffsets template)) initial)))))\<rparr>
                   (calculateLineOffsets template ast)
                   (hd (mappingsStack (snd (exec_list (calculateLineOffsets template)
                          (callback ast (calculateLineOffsets template)) initial))))
                   (NodeOrigin ast)\<rparr>\<rparr>"
proof -
  obtain q s where run: "exec_list (calculateLineOffsets template)
                (callback ast (calculateLineOffsets template)) initial = (q, s)"
    by (cases "exec_list (calculateLineOffsets template)
                (callback ast (calculateLineOffsets template)) initial")
  from assms(2) have a: "q = None \<and> length (segmentsStack s) = 1 \<and>
      r = \<lparr>result_errors = errors s,
           result = Some \<lparr>code = concat (hd (segmentsStack s)),
                          mapping = MappingTree
                            \<lparr>range_start = 0, range_end = length (concat (hd (segmentsStack s)))\<rparr>
                            (calculateLineOffsets template ast) (hd (mappingsStack s))
                            (NodeOrigin ast)\<rparr>\<rparr>"
    unfolding mapTemplateContents_Inr[of preprocess template _ callback, OF assms(1)] run
    by (cases q) (auto split: if_splits)
  from a run show "fst (exec_list (calculateLineOffsets template)
                (callback ast (calculateLineOffsets template)) initial) = None" by simp
  from a run show "length (segmentsStack (snd (exec_list (calculateLineOffsets template)
                (callback ast (calculateLineOffsets template)) initial))) = 1" by simp
  from a run show "r = \<lparr>result_errors = errors (snd (exec_list (calculateLineOffsets template)
                (callback ast (calculateLineOffsets template)) initial)),
              result = Some
                \<lparr>code = concat (hd (segmentsStack (snd (exec_list (calculateLineOffsets template)
                          (callback ast (calculateLineOffsets template)) initial)))),
                 mapping = MappingTree
                   \<lparr>range_start = 0,
                    range_end = length (concat (hd (segmentsStack
                      (snd (exec_list (calculateLineOffsets template)
                          (callback ast (calculateLineOffsets template)) initial)))))\<rparr>
                   (calculateLineOffsets template ast)
                   (hd (mappingsStack (snd (exec_list (calculateLineOffsets template)
                          (callback ast (calculateLineOffsets template)) initial))))
                   (NodeOrigin ast)\<rparr>\<rparr>" by simp
qed

lemma rf_abc: "calculateLineOffsets abc ast_abc = \<lparr>range_start = Num 0, range_end = Num 3\<rparr>"
  by (simp add: calculateLineOffsets_def line_offsets_def abc_def ast_abc_def array_set_def
      array_get_def)

section \<open>Containment of ranges in the mapping tree\<close>

text \<open>
  Claim C2, amended. In every mapping tree that \<^verbatim>\<open>mapTemplateContents\<close> returns, at every
  node, the output range of each child lies within the output range of its parent, and the
  output ranges of siblings are ordered and do not overlap; this holds for every driver.
  Nothing is claimed about source ranges: they are the ranges that the driver passes
  (\<^verbatim>\<open>rangeForNode(node)\<close> for \<^verbatim>\<open>forNode\<close>, the given offset and length for \<^verbatim>\<open>identifier\<close>)
  and nest only when the driver makes them nest.
\<close>

theorem output_ranges_nest:
  "mapTemplateContents preprocess template callback = Returned r \<and> result r = Some c
     \<longrightarrow> output_contained (mapping c)"
proof
  assume a: "mapTemplateContents preprocess template callback = Returned r \<and> result r = Some c"
  show "output_contained (mapping c)"
  proof (cases "preprocess template")
    case (Inl err)
    with a show ?thesis
      by (cases "read_message err") (auto simp: mapTemplateContents_def)
  next
    case (Inr ast)
    let ?rf = "calculateLineOffsets template"
    from a have ret: "mapTemplateContents preprocess template callback = Returned r" by simp
    note R = returned_run[OF Inr ret]
    obtain segs maps where run:
      "segmentsStack (snd (exec_list ?rf (callback ast ?rf) initial)) = [segs]"
      "mappingsStack (snd (exec_list ?rf (callback ast ?rf) initial)) = [maps]"
      "chain 0 maps (length (concat segs))" "list_all output_wf maps"
      using run_initial[OF R(2)] by blast
    from a R(3) have "mapping c = MappingTree \<lparr>range_start = 0, range_end = length (concat segs)\<rparr>
        (?rf ast) maps (NodeOrigin ast)"
      unfolding run by auto
    moreover have "output_wf (MappingTree \<lparr>range_start = 0, range_end = length (concat segs)\<rparr>
        (?rf ast) maps (NodeOrigin ast))"
      using run(3,4) by simp
    ultimately show ?thesis by (simp only: output_wf_contained)
  qed
qed

theorem output_ranges_nest_witness:
  "mapTemplateContents parse_abc abc nested_driver =
     Returned \<lparr>result_errors = [],
               result = Some \<lparr>code = [0x78, 0x61, 0x62, 0x63], mapping = nested_tree\<rparr>\<rparr>
   \<and> result \<lparr>result_errors = [],
               result = Some \<lparr>code = [0x78, 0x61, 0x62, 0x63], mapping = nested_tree\<rparr>\<rparr>
       = Some \<lparr>code = [0x78, 0x61, 0x62, 0x63], mapping = nested_tree\<rparr>
   \<and> output_contained nested_tree"
proof -
  have e: "mapTemplateContents parse_abc abc nested_driver =
     Returned \<lparr>result_errors = [],
               result = Some \<lparr>code = [0x78, 0x61, 0x62, 0x63], mapping = nested_tree\<rparr>\<rparr>"
    by (simp add: mapTemplateContents_def parse_abc_def nested_driver_def rf_abc nested_tree_def
        emit_forNode_def emit_identifier_def captureMapping_def emit_text_def
        top_push_def initial_def Let_def local_array_def)
  from output_ranges_nest[where preprocess = parse_abc and template = abc
      and callback = nested_driver
      and r = "\<lparr>result_errors = [],
               result = Some \<lparr>code = [0x78, 0x61, 0x62, 0x63], mapping = nested_tree\<rparr>\<rparr>"
      and c = "\<lparr>code = [0x78, 0x61, 0x62, 0x63], mapping = nested_tree\<rparr>"] e
  show ?thesis by simp
qed

text \<open>
  Claim C2 as stated fails: an \<^verbatim>\<open>identifier\<close> call with offset 100 inside the scope of the
  template node, whose source range is 0 to 3, gives a child whose source range lies
  outside the source range of its parent.
\<close>

theorem stray_identifier_not_contained:
  "mapTemplateContents parse_abc abc stray_identifier_driver =
     Returned \<lparr>result_errors = [], result = Some \<lparr>code = [0x78], mapping = stray_tree\<rparr>\<rparr>
   \<and> \<not> fully_contained stray_tree"
  by (simp add: mapTemplateContents_def parse_abc_def stray_identifier_driver_def rf_abc
      stray_tree_def emit_forNode_def emit_identifier_def captureMapping_def emit_text_def
      top_push_def initial_def Let_def within_source_def within_def local_array_def)

lemma tiles_append: "tiles lo a mid \<Longrightarrow> tiles mid b hi \<Longrightarrow> tiles lo (a @ b) hi"
  by (induction a arbitrary: lo) auto

lemma tiles_covered: "tiles lo ms (length text) \<Longrightarrow> covered text ms = drop lo text"
proof (induction ms arbitrary: lo)
  case Nil
  then show ?case by (simp add: covered_def)
next
  case (Cons m ms)
  let ?e = "range_end (outputRange m)"
  from Cons.prems have s: "range_start (outputRange m) = lo" and le: "lo \<le> ?e"
    and t: "tiles ?e ms (length text)" by simp_all
  from Cons.IH[OF t] have r: "covered text ms = drop ?e text" .
  have "substring text lo ?e = take (?e - lo) (drop lo text)"
    using le by (simp add: substring_def max_def min_def)
  moreover have "drop ?e text = drop (?e - lo) (drop lo text)"
    using le by simp
  ultimately have "substring text lo ?e @ drop ?e text = drop lo text"
    by (simp only: append_take_drop_id)
  with r s show ?case by (simp add: covered_def)
qed

lemma tiles_seq:
  assumes "mappingsStack s1 = (hd (mappingsStack s) @ m1) # tl (mappingsStack s)"
    and "tiles (offset s) m1 (offset s1)"
    and "mappingsStack s2 = (hd (mappingsStack s1) @ m2) # tl (mappingsStack s1)"
    and "tiles (offset s1) m2 (offset s2)"
  shows "\<exists>maps. mappingsStack s2 = (hd (mappingsStack s) @ maps) # tl (mappingsStack s)
               \<and> tiles (offset s) maps (offset s2)"
  apply (rule exI[of _ "m1 @ m2"])
  using assms(1,3) tiles_append[OF assms(2,4)] by simp

lemma tiles_none:
  assumes "nonempty s" "mappingsStack t = mappingsStack s" "offset t = offset s"
  shows "\<exists>maps. mappingsStack t = (hd (mappingsStack s) @ maps) # tl (mappingsStack s)
               \<and> tiles (offset s) maps (offset t)"
  apply (rule exI[of _ "[]"])
  using assms unfolding nonempty_def by simp

text \<open>
  A scope that leaves the stacks as deep as they were before it has appended to the
  mappings of the caller either nothing, with the offset unchanged, or one node that
  covers what was emitted.
\<close>

lemma scope_exit_tiles:
  assumes ne: "nonempty s" and ok: "step_ok (enter_scope s) (r, s2)"
    and depth: "length (segmentsStack (snd (scope_exit h src s (r, s2)))) =
                length (segmentsStack s)"
  shows "\<exists>maps. mappingsStack (snd (scope_exit h src s (r, s2))) =
                  (hd (mappingsStack s) @ maps) # tl (mappingsStack s)
               \<and> tiles (offset s) maps (offset (snd (scope_exit h src s (r, s2))))"
proof -
  from ne have hdtl: "mappingsStack s = hd (mappingsStack s) # tl (mappingsStack s)"
    and sne: "segmentsStack s \<noteq> []"
    unfolding nonempty_def by simp_all
  from ok obtain eS eM g m where
    st: "segmentsStack s2 = eS @ g # segmentsStack s" "mappingsStack s2 = eM @ m # mappingsStack s"
    and len: "length eS = length eM"
    and acc: "eS = [] \<longrightarrow> offset s2 = offset s + length (concat g)
       \<and> chain (offset s) m (offset s2) \<and> list_all output_wf m"
    by (elim callback_stacks)
  have tll: "length (tl (segmentsStack s2)) = length eS + length (segmentsStack s)"
    unfolding st by simp
  show ?thesis
  proof (cases r)
    case (Some e)
    show ?thesis
    proof (cases "read_message e")
      case (Inl raised)
      from depth show ?thesis
        unfolding Some scope_exit_raised[OF Inl] using st by simp
    next
      case (Inr msg)
      from depth tll have "eS = []"
        unfolding Some scope_exit_caught[OF Inr] by simp
      with len have "eM = []" by simp
      with st have "mappingsStack (snd (scope_exit h src s (r, s2))) = mappingsStack s"
        "offset (snd (scope_exit h src s (r, s2))) = offset s"
        unfolding Some scope_exit_caught[OF Inr] by simp_all
      with ne show ?thesis by (rule tiles_none)
    qed
  next
    case None
    show ?thesis
    proof (cases "offset s2 = offset s")
      case True
      from depth tll have "eS = []"
        unfolding None scope_exit_same[OF True] by simp
      with len have "eM = []" by simp
      with st True have "mappingsStack (snd (scope_exit h src s (r, s2))) = mappingsStack s"
        "offset (snd (scope_exit h src s (r, s2))) = offset s"
        unfolding None scope_exit_same[OF True] by simp_all
      with ne show ?thesis by (rule tiles_none)
    next
      case False
      have res: "scope_exit h src s (None, s2) =
          (None, s2\<lparr>mappingsStack :=
                     push_top
                       [MappingTree \<lparr>range_start = offset s, range_end = offset s2\<rparr> h
                          (local_array (length (mappingsStack s)) (mappingsStack s2)) src]
                       (tl (mappingsStack s2)),
                   segmentsStack :=
                     push_top (local_array (length (segmentsStack s)) (segmentsStack s2))
                       (tl (segmentsStack s2))\<rparr>)"
        using False by (simp add: scope_exit_def)
      have "eS = []"
      proof (rule ccontr)
        assume "eS \<noteq> []"
        then obtain e es where "eS = e # es" by (cases eS) auto
        with st have "tl (segmentsStack s2) = es @ g # segmentsStack s" by simp
        then have "length (push_top xs (tl (segmentsStack s2))) =
            Suc (length es + length (segmentsStack s))" for xs
          by (cases es) (simp_all add: push_top_def)
        with depth show False unfolding None res by simp
      qed
      with len have eM: "eM = []" by simp
      from \<open>eS = []\<close> acc have le: "offset s \<le> offset s2" by simp
      have la: "local_array (length (mappingsStack s)) (mappingsStack s2) = m"
        using local_array_at[of "mappingsStack s" "[]" m] st eM by simp
      have tl2: "tl (mappingsStack s2) = mappingsStack s" using st eM by simp
      show ?thesis
        apply (rule exI[of _ "[MappingTree \<lparr>range_start = offset s, range_end = offset s2\<rparr> h m src]"])
        unfolding None res la tl2 using le by (simp add: push_top_def)
    qed
  qed
qed

lemma exec_depth_le:
  assumes "nonempty s"
  shows "length (segmentsStack s) \<le> length (segmentsStack (snd (exec rf c s)))"
    and "length (segmentsStack s) \<le> length (segmentsStack (snd (exec_list rf cs s)))"
  using step_ok_depth(1)[OF exec_ok(1)[OF assms] assms]
    step_ok_depth(1)[OF exec_ok(2)[OF assms] assms] by simp_all

lemma exec_scoped_tiles:
  "nonempty s \<Longrightarrow> scoped c \<Longrightarrow>
   length (segmentsStack (snd (exec rf c s))) = length (segmentsStack s) \<Longrightarrow>
   \<exists>maps. mappingsStack (snd (exec rf c s)) =
            (hd (mappingsStack s) @ maps) # tl (mappingsStack s)
         \<and> tiles (offset s) maps (offset (snd (exec rf c s)))"
  "nonempty s \<Longrightarrow> list_all scoped cs \<Longrightarrow>
   length (segmentsStack (snd (exec_list rf cs s))) = length (segmentsStack s) \<Longrightarrow>
   \<exists>maps. mappingsStack (snd (exec_list rf cs s)) =
            (hd (mappingsStack s) @ maps) # tl (mappingsStack s)
         \<and> tiles (offset s) maps (offset (snd (exec_list rf cs s)))"
proof (induction rf c s and rf cs s rule: exec_exec_list.induct)
  case (1 rf s)
  from 1(1) show ?case by (rule tiles_none) (simp_all add: emit_indent_def)
next
  case (2 rf s)
  from 2(1) show ?case by (rule tiles_none) (simp_all add: emit_dedent_def)
next
  case (3 rf s)
  then show ?case by simp
next
  case (4 rf v s)
  then show ?case by simp
next
  case (5 rf v hbsOffset hbsLength s)
  obtain r s2 where run: "emit_text v (enter_scope s) = (r, s2)"
    by (cases "emit_text v (enter_scope s)")
  from emit_text_ok[OF enter_scope_nonempty, of s v] run
  have ok: "step_ok (enter_scope s) (r, s2)" by simp
  from 5(3) have d: "length (segmentsStack (snd (scope_exit
        \<lparr>range_start = Num hbsOffset,
           range_end = Num (hbsOffset + (case hbsLength of None \<Rightarrow> int (length v) | Some l \<Rightarrow> l))\<rparr>
        (IdentifierOrigin v) s (r, s2)))) = length (segmentsStack s)"
    unfolding exec_Identifier_eq[OF 5(1)] run .
  from scope_exit_tiles[OF 5(1) ok d] show ?case
    unfolding exec_Identifier_eq[OF 5(1)] run .
next
  case (6 rf node cb s)
  obtain r s2 where run: "exec_list rf cb (enter_scope s) = (r, s2)"
    by (cases "exec_list rf cb (enter_scope s)")
  from exec_ok(2)[OF enter_scope_nonempty, of s rf cb] run
  have ok: "step_ok (enter_scope s) (r, s2)" by simp
  from 6(4) have d: "length (segmentsStack (snd (scope_exit (rf node) (NodeOrigin node) s (r, s2)))) =
      length (segmentsStack s)"
    unfolding exec_ForNode_eq[OF 6(2)] run .
  from scope_exit_tiles[OF 6(2) ok d] show ?case
    unfolding exec_ForNode_eq[OF 6(2)] run .
next
  case (7 rf e s)
  from 7(1) show ?case by (rule tiles_none) simp_all
next
  case (8 rf body handler s)
  from 8(4) have sb: "list_all scoped body" and sh: "list_all scoped handler" by simp_all
  obtain r s1 where run: "exec_list rf body s = (r, s1)" by (cases "exec_list rf body s")
  from exec_ok(2)[OF 8(3), of rf body] run have ne1: "nonempty s1"
    using step_ok_nonempty by fastforce
  from exec_depth_le(2)[OF 8(3), of rf body] run
  have le1: "length (segmentsStack s) \<le> length (segmentsStack s1)" by simp
  show ?case
  proof (cases r)
    case None
    from 8(5) run None have "length (segmentsStack (snd (exec_list rf body s))) =
        length (segmentsStack s)" by simp
    from 8(1)[OF 8(3) sb this] run None show ?thesis by simp
  next
    case (Some e)
    from exec_depth_le(2)[OF ne1, of rf handler] 8(5) run Some le1
    have d1: "length (segmentsStack (snd (exec_list rf body s))) = length (segmentsStack s)"
      and d2: "length (segmentsStack (snd (exec_list rf handler s1))) = length (segmentsStack s1)"
      by simp_all
    from 8(1)[OF 8(3) sb d1] run obtain m1 where
      m1: "mappingsStack s1 = (hd (mappingsStack s) @ m1) # tl (mappingsStack s)"
      and t1: "tiles (offset s) m1 (offset s1)" by auto
    from 8(2)[OF run[symmetric] Some ne1 sh d2] obtain m2 where
      m2: "mappingsStack (snd (exec_list rf handler s1)) =
             (hd (mappingsStack s1) @ m2) # tl (mappingsStack s1)"
      and t2: "tiles (offset s1) m2 (offset (snd (exec_list rf handler s1)))" by auto
    from tiles_seq[OF m1 t1 m2 t2] run Some show ?thesis by simp
  qed
next
  case (9 rf s)
  from 9(1) show ?case by (rule tiles_none) simp_all
next
  case (10 rf c cs s)
  from 10(4) have sc: "scoped c" and scs: "list_all scoped cs" by simp_all
  obtain r s1 where run: "exec rf c s = (r, s1)" by (cases "exec rf c s")
  from exec_ok(1)[OF 10(3), of rf c] run have ne1: "nonempty s1"
    using step_ok_nonempty by fastforce
  from exec_depth_le(1)[OF 10(3), of rf c] run
  have le1: "length (segmentsStack s) \<le> length (segmentsStack s1)" by simp
  show ?case
  proof (cases r)
    case (Some e)
    from 10(5) run Some have "length (segmentsStack (snd (exec rf c s))) =
        length (segmentsStack s)" by simp
    from 10(1)[OF 10(3) sc this] run Some show ?thesis by simp
  next
    case None
    from exec_depth_le(2)[OF ne1, of rf cs] 10(5) run None le1
    have d1: "length (segmentsStack (snd (exec rf c s))) = length (segmentsStack s)"
      and d2: "length (segmentsStack (snd (exec_list rf cs s1))) = length (segmentsStack s1)"
      by simp_all
    from 10(1)[OF 10(3) sc d1] run obtain m1 where
      m1: "mappingsStack s1 = (hd (mappingsStack s) @ m1) # tl (mappingsStack s)"
      and t1: "tiles (offset s) m1 (offset s1)" by auto
    from 10(2)[OF run[symmetric] None ne1 scs d2] obtain m2 where
      m2: "mappingsStack (snd (exec_list rf cs s1)) =
             (hd (mappingsStack s1) @ m2) # tl (mappingsStack s1)"
      and t2: "tiles (offset s1) m2 (offset (snd (exec_list rf cs s1)))" by auto
    from tiles_seq[OF m1 t1 m2 t2] run None show ?thesis by simp
  qed
qed

section \<open>The root node and the returned code\<close>

text \<open>
  Claim C5, amended. For every rewrite that returns a result, the output range of the root
  node is \<open>{0, length(code)}\<close>. When every call that the driver makes outside all
  \<^verbatim>\<open>forNode\<close> callbacks is a \<^verbatim>\<open>forNode\<close>, \<^verbatim>\<open>identifier\<close>, \<^verbatim>\<open>indent\<close> or \<^verbatim>\<open>dedent\<close> call, the
  substrings of the code that the output ranges of the root's children cover, concatenated
  in order, are the code. Text that \<^verbatim>\<open>text\<close> or \<^verbatim>\<open>newline\<close> emit outside every scope is
  covered by no child.
\<close>

theorem root_covers_code:
  "mapTemplateContents preprocess template callback = Returned r \<and> result r = Some c \<longrightarrow>
     outputRange (mapping c) = \<lparr>range_start = 0, range_end = length (code c)\<rparr>
     \<and> ((\<forall>ast. preprocess template = Inr ast \<longrightarrow>
               list_all scoped (callback ast (calculateLineOffsets template)))
          \<longrightarrow> covered (code c) (children (mapping c)) = code c)"
proof
  assume a: "mapTemplateContents preprocess template callback = Returned r \<and> result r = Some c"
  show "outputRange (mapping c) = \<lparr>range_start = 0, range_end = length (code c)\<rparr>
     \<and> ((\<forall>ast. preprocess template = Inr ast \<longrightarrow>
               list_all scoped (callback ast (calculateLineOffsets template)))
          \<longrightarrow> covered (code c) (children (mapping c)) = code c)"
  proof (cases "preprocess template")
    case (Inl err)
    with a show ?thesis
      by (cases "read_message err") (auto simp: mapTemplateContents_def)
  next
    case (Inr ast)
    let ?rf = "calculateLineOffsets template"
    let ?run = "exec_list ?rf (callback ast ?rf) initial"
    from a have ret: "mapTemplateContents preprocess template callback = Returned r" by simp
    note R = returned_run[OF Inr ret]
    obtain segs maps where run:
      "segmentsStack (snd ?run) = [segs]" "mappingsStack (snd ?run) = [maps]"
      "offset (snd ?run) = length (concat segs)"
      using run_initial[OF R(2)] by blast
    from a R(3) have c: "c = \<lparr>code = concat segs,
        mapping = MappingTree \<lparr>range_start = 0, range_end = length (concat segs)\<rparr>
        (?rf ast) maps (NodeOrigin ast)\<rparr>"
      unfolding run by auto
    have "covered (concat segs) maps = concat segs" if "list_all scoped (callback ast ?rf)"
    proof -
      have d: "length (segmentsStack (snd ?run)) = length (segmentsStack initial)"
        using R(2) by (simp add: initial_def)
      from exec_scoped_tiles(2)[OF initial_nonempty that d] run
      have "tiles 0 maps (length (concat segs))" by (simp add: initial_def)
      from tiles_covered[OF this] show ?thesis by simp
    qed
    with c Inr show ?thesis by simp
  qed
qed

theorem root_covers_code_witness:
  "mapTemplateContents parse_abc abc two_scopes_driver =
     Returned \<lparr>result_errors = [],
       result = Some \<lparr>code = [0x61, 0x62, 0x0A],
         mapping = MappingTree \<lparr>range_start = 0, range_end = 3\<rparr>
           \<lparr>range_start = Num 0, range_end = Num 3\<rparr>
           [MappingTree \<lparr>range_start = 0, range_end = 1\<rparr> \<lparr>range_start = Num 0, range_end = Num 1\<rparr>
              [] (IdentifierOrigin [0x61]),
            MappingTree \<lparr>range_start = 1, range_end = 3\<rparr> \<lparr>range_start = Num 0, range_end = Num 3\<rparr>
              [] (NodeOrigin ast_abc)]
           (NodeOrigin ast_abc)\<rparr>\<rparr>
   \<and> list_all scoped (two_scopes_driver ast_abc (calculateLineOffsets abc))
   \<and> covered [0x61, 0x62, 0x0A]
        [MappingTree \<lparr>range_start = 0, range_end = 1\<rparr> \<lparr>range_start = Num 0, range_end = Num 1\<rparr>
              [] (IdentifierOrigin [0x61]),
         MappingTree \<lparr>range_start = 1, range_end = 3\<rparr> \<lparr>range_start = Num 0, range_end = Num 3\<rparr>
              [] (NodeOrigin ast_abc)] = [0x61, 0x62, 0x0A]"
proof -
  have e: "mapTemplateContents parse_abc abc two_scopes_driver =
     Returned \<lparr>result_errors = [],
       result = Some \<lparr>code = [0x61, 0x62, 0x0A],
         mapping = MappingTree \<lparr>range_start = 0, range_end = 3\<rparr>
           \<lparr>range_start = Num 0, range_end = Num 3\<rparr>
           [MappingTree \<lparr>range_start = 0, range_end = 1\<rparr> \<lparr>range_start = Num 0, range_end = Num 1\<rparr>
              [] (IdentifierOrigin [0x61]),
            MappingTree \<lparr>range_start = 1, range_end = 3\<rparr> \<lparr>range_start = Num 0, range_end = Num 3\<rparr>
              [] (NodeOrigin ast_abc)]
           (NodeOrigin ast_abc)\<rparr>\<rparr>"
    by (simp add: mapTemplateContents_def parse_abc_def two_scopes_driver_def rf_abc
        emit_forNode_def emit_identifier_def captureMapping_def emit_text_def emit_newline_def
        top_push_def initial_def Let_def local_array_def)
  have s: "list_all scoped (two_scopes_driver ast_abc (calculateLineOffsets abc))"
    by (simp add: two_scopes_driver_def)
  have p: "\<forall>ast. parse_abc abc = Inr ast \<longrightarrow>
               list_all scoped (two_scopes_driver ast (calculateLineOffsets abc))"
    by (simp add: two_scopes_driver_def)
  from root_covers_code[where preprocess = parse_abc and template = abc
      and callback = two_scopes_driver
      and r = "\<lparr>result_errors = [],
       result = Some \<lparr>code = [0x61, 0x62, 0x0A],
         mapping = MappingTree \<lparr>range_start = 0, range_end = 3\<rparr>
           \<lparr>range_start = Num 0, range_end = Num 3\<rparr>
           [MappingTree \<lparr>range_start = 0, range_end = 1\<rparr> \<lparr>range_start = Num 0, range_end = Num 1\<rparr>
              [] (IdentifierOrigin [0x61]),
            MappingTree \<lparr>range_start = 1, range_end = 3\<rparr> \<lparr>range_start = Num 0, range_end = Num 3\<rparr>
              [] (NodeOrigin ast_abc)]
           (NodeOrigin ast_abc)\<rparr>\<rparr>"
      and c = "\<lparr>code = [0x61, 0x62, 0x0A],
         mapping = MappingTree \<lparr>range_start = 0, range_end = 3\<rparr>
           \<lparr>range_start = Num 0, range_end = Num 3\<rparr>
           [MappingTree \<lparr>range_start = 0, range_end = 1\<rparr> \<lparr>range_start = Num 0, range_end = Num 1\<rparr>
              [] (IdentifierOrigin [0x61]),
            MappingTree \<lparr>range_start = 1, range_end = 3\<rparr> \<lparr>range_start = Num 0, range_end = Num 3\<rparr>
              [] (NodeOrigin ast_abc)]
           (NodeOrigin ast_abc)\<rparr>"] e p s
  show ?thesis by simp
qed

text \<open>
  Claim C5 as stated fails: a driver that emits \<^verbatim>\<open>abc\<close> outside every scope returns the code
  \<^verbatim>\<open>abc\<close> and a root without children, which cover nothing.
\<close>

theorem top_level_text_not_covered:
  "mapTemplateContents parse_abc abc raw_text_driver =
     Returned \<lparr>result_errors = [],
       result = Some \<lparr>code = abc,
         mapping = MappingTree \<lparr>range_start = 0, range_end = 3\<rparr>
           \<lparr>range_start = Num 0, range_end = Num 3\<rparr> [] (NodeOrigin ast_abc)\<rparr>\<rparr>
   \<and> covered abc [] \<noteq> abc"
  by (simp add: mapTemplateContents_def parse_abc_def raw_text_driver_def rf_abc
      emit_text_def top_push_def initial_def Let_def covered_def) (simp add: abc_def)

lemma split_nonempty: "split sep xs \<noteq> []"
  by (induction xs) (auto split: list.splits)

lemma offsets_loop_eq:
  "length offs = index + 1 \<Longrightarrow>
   offsets_loop index lines tot offs =
     offs @ map (\<lambda>k. Some (tot + sum_list (map (\<lambda>ln. length ln + 1) (take k lines))))
              [0..<length lines]"
proof (induction lines arbitrary: index tot offs)
  case Nil
  then show ?case by simp
next
  case (Cons ln rest)
  have set: "array_set offs (Suc index) tot = offs @ [Some tot]"
    using Cons.prems by (simp add: array_set_def)
  have len: "length (offs @ [Some tot]) = (index + 1) + 1" using Cons.prems by simp
  have "[0..<length (ln # rest)] = 0 # map Suc [0..<length rest]"
    by (simp add: upt_conv_Cons map_Suc_upt del: upt_Suc)
  then show ?case
    using Cons.IH[OF len, of "tot + (length ln + 1)"]
    by (simp add: set o_def add.assoc del: upt_Suc)
qed

lemma line_offsets_eq:
  "line_offsets template =
     Some 0 # map (\<lambda>k. Some (prefix_sum (split 0x0A template) (k + 1)))
                [0..<length (split 0x0A template)]"
  by (simp add: line_offsets_def offsets_loop_eq prefix_sum_def)

lemma array_get_line_offsets: "array_get (line_offsets template) l = line_start template l"
proof (cases l)
  case 0
  then show ?thesis by (simp add: line_offsets_eq array_get_def line_start_def prefix_sum_def)
next
  case (Suc k)
  show ?thesis
  proof (cases "k < length (split 0x0A template)")
    case True
    with Suc show ?thesis
      by (simp add: line_offsets_eq array_get_def line_start_def del: upt_Suc)
  next
    case False
    with Suc show ?thesis
      by (simp add: line_offsets_eq array_get_def line_start_def del: upt_Suc)
  qed
qed

lemma leading_length:
  "(case LEADING_WHITESPACE s of Some m \<Rightarrow> length m | None \<Rightarrow> 0) =
     length (takeWhile is_whitespace s)"
  by (simp add: LEADING_WHITESPACE_def Let_def)

lemma trailing_length:
  "(case TRAILING_WHITESPACE s of Some m \<Rightarrow> length m | None \<Rightarrow> 0) =
     length (takeWhile is_whitespace (rev s))"
  by (simp add: TRAILING_WHITESPACE_def Let_def)

lemma takeWhile_length_all:
  "length (takeWhile P xs) = length xs \<longleftrightarrow> list_all P xs"
  by (induction xs) (auto split: if_splits)

lemma split_join: "concat (map (\<lambda>ln. ln @ [sep]) (split sep xs)) = xs @ [sep]"
  by (induction xs) (auto split: list.splits simp: split_nonempty)

lemma prefix_sum_length:
  "prefix_sum lines l = length (concat (map (\<lambda>ln. ln @ [sep]) (take (l - 1) lines)))"
  by (simp add: prefix_sum_def length_concat o_def)

lemma concat_map_nth:
  "n < length xs \<Longrightarrow>
   concat (map f xs) = concat (map f (take n xs)) @ f (xs ! n) @ concat (map f (drop (Suc n) xs))"
proof (induction xs arbitrary: n)
  case Nil
  then show ?case by simp
next
  case (Cons x xs)
  then show ?case by (cases n) simp_all
qed

lemma line_at_prefix_sum:
  assumes "1 \<le> l" "l \<le> length (split sep template)"
  shows "take (length (split sep template ! (l - 1)))
              (drop (prefix_sum (split sep template) l) template) =
         split sep template ! (l - 1)"
proof -
  let ?lines = "split sep template"
  let ?f = "\<lambda>ln. ln @ [sep]"
  let ?pre = "concat (map ?f (take (l - 1) ?lines))"
  let ?ln = "?lines ! (l - 1)"
  let ?post = "concat (map ?f (drop (Suc (l - 1)) ?lines))"
  from assms have lt: "l - 1 < length ?lines" by simp
  have "concat (map ?f ?lines) = ?pre @ ?f ?ln @ ?post"
    using lt by (rule concat_map_nth)
  then have eq: "template @ [sep] = ?pre @ ?ln @ sep # ?post"
    by (simp add: split_join)
  have k: "prefix_sum ?lines l = length ?pre" by (rule prefix_sum_length)
  from arg_cong[OF eq, of length]
  have bound: "length ?pre + length ?ln \<le> length template" by simp
  have "take (length ?ln) (drop (length ?pre) (template @ [sep])) =
        take (length ?ln) (drop (length ?pre) (?pre @ ?ln @ sep # ?post))"
    by (simp only: eq)
  then have "take (length ?ln) (drop (length ?pre) (template @ [sep])) = ?ln"
    by simp
  moreover have "take (length ?ln) (drop (length ?pre) (template @ [sep])) =
      take (length ?ln) (drop (length ?pre) template)"
    using bound by simp
  ultimately show ?thesis using k by simp
qed

lemma rangeForNode_examples:
  "split 0x0A three_lines = [ [0x61], [0x20, 0x20, 0x62, 0x20], [0x63]]"
  "line_offsets three_lines = [Some 0, Some 0, Some 2, Some 7]"
  "calculateLineOffsets three_lines (text_node 2 0 2 4 [0x20, 0x20, 0x62, 0x20]) =
     \<lparr>range_start = Num 4, range_end = Num 5\<rparr>"
  "calculateLineOffsets three_lines (text_node 2 0 2 4 [0x20, 0x20, 0x20, 0x20]) =
     \<lparr>range_start = Num 2, range_end = Num 6\<rparr>"
  "calculateLineOffsets three_lines (text_node 3 0 3 0 []) =
     \<lparr>range_start = Num 7, range_end = Num 7\<rparr>"
  "calculateLineOffsets three_lines
     ((text_node 2 0 2 4 [0x20, 0x20, 0x62, 0x20])\<lparr>ntype := ''MustacheStatement''\<rparr>) =
     \<lparr>range_start = Num 2, range_end = Num 6\<rparr>"
  "calculateLineOffsets three_lines (text_node 4 0 4 1 [0x63]) =
     \<lparr>range_start = NaN, range_end = NaN\<rparr>"
  by (simp_all add: calculateLineOffsets_def line_offsets_def three_lines_def text_node_def
      array_set_def array_get_def LEADING_WHITESPACE_def TRAILING_WHITESPACE_def
      is_whitespace_def Let_def)

section \<open>The range of a node\<close>

text \<open>
  Claim C7. \<^verbatim>\<open>rangeForNode\<close> maps the 1-indexed line and column of each end of a node to
  an absolute offset through the prefix sums of the line lengths, and exactly when the node
  is a \<^verbatim>\<open>TextNode\<close> whose text is not entirely white space it moves the start past the
  leading white space and the end before the trailing white space; a \<^verbatim>\<open>TextNode\<close> of
  white space only (the empty text too) and every other node keep the untrimmed range.
  The prefix sum of a line of the template is the offset at which that line starts in the
  template.
\<close>

theorem rangeForNode_trims_text:
  "calculateLineOffsets template node = rangeForNode_spec template node
   \<and> (1 \<le> l \<and> l \<le> length (split 0x0A template) \<longrightarrow>
        line_start template l = Num (int (prefix_sum (split 0x0A template) l))
        \<and> take (length (split 0x0A template ! (l - 1)))
                 (drop (prefix_sum (split 0x0A template) l) template) =
            split 0x0A template ! (l - 1))"
proof (intro conjI impI)
  show "calculateLineOffsets template node = rangeForNode_spec template node"
    unfolding calculateLineOffsets_def rangeForNode_spec_def
    by (simp add: Let_def array_get_line_offsets leading_length trailing_length
        takeWhile_length_all)
next
  assume a: "1 \<le> l \<and> l \<le> length (split 0x0A template)"
  then show "line_start template l = Num (int (prefix_sum (split 0x0A template) l))"
    by (simp add: line_start_def)
  from a show "take (length (split 0x0A template ! (l - 1)))
                 (drop (prefix_sum (split 0x0A template) l) template) =
            split 0x0A template ! (l - 1)"
    using line_at_prefix_sum[of l "0x0A" template] by simp
qed

theorem rangeForNode_trims_text_witness:
  "(1::nat) \<le> 2 \<and> 2 \<le> length (split 0x0A three_lines)
   \<and> calculateLineOffsets three_lines (text_node 2 0 2 4 [0x20, 0x20, 0x62, 0x20]) =
       \<lparr>range_start = Num 4, range_end = Num 5\<rparr>
   \<and> line_start three_lines 2 = Num 2
   \<and> take 4 (drop 2 three_lines) = [0x20, 0x20, 0x62, 0x20]"
proof -
  have s: "split 0x0A three_lines = [ [0x61], [0x20, 0x20, 0x62, 0x20], [0x63]]"
    by (simp add: three_lines_def)
  have h: "(1::nat) \<le> 2 \<and> 2 \<le> length (split 0x0A three_lines)"
    by (simp add: s)
  have p: "prefix_sum (split 0x0A three_lines) 2 = 2"
    by (simp add: s prefix_sum_def)
  have n: "length (split 0x0A three_lines ! (2 - 1)) = 4" "split 0x0A three_lines ! (2 - 1) = [0x20, 0x20, 0x62, 0x20]"
    by (simp_all add: s)
  have r: "rangeForNode_spec three_lines (text_node 2 0 2 4 [0x20, 0x20, 0x62, 0x20]) =
       \<lparr>range_start = Num 4, range_end = Num 5\<rparr>"
    by (simp add: rangeForNode_spec_def line_start_def s prefix_sum_def text_node_def
        is_whitespace_def Let_def)
  from rangeForNode_trims_text[where template = three_lines
      and node = "text_node 2 0 2 4 [0x20, 0x20, 0x62, 0x20]" and l = 2] h
  have "calculateLineOffsets three_lines (text_node 2 0 2 4 [0x20, 0x20, 0x62, 0x20]) =
          rangeForNode_spec three_lines (text_node 2 0 2 4 [0x20, 0x20, 0x62, 0x20])
      \<and> line_start three_lines 2 = Num (int (prefix_sum (split 0x0A three_lines) 2))
      \<and> take (length (split 0x0A three_lines ! (2 - 1)))
                 (drop (prefix_sum (split 0x0A three_lines) 2) three_lines) =
            split 0x0A three_lines ! (2 - 1)"
    by blast
  then have "calculateLineOffsets three_lines (text_node 2 0 2 4 [0x20, 0x20, 0x62, 0x20]) =
       \<lparr>range_start = Num 4, range_end = Num 5\<rparr>
   \<and> line_start three_lines 2 = Num 2
   \<and> take 4 (drop 2 three_lines) = [0x20, 0x20, 0x62, 0x20]"
    unfolding p n r by (simp add: three_lines_def)
  with h show ?thesis by blast
qed

end
